theory Spec2Isabelle
  imports Main "HOL-Library.Extended_Nat"
begin

section \<open>Python strings and lists\<close>

text \<open>
  The signature extractor of \<^verbatim>\<open>files_to_prompt/cli.py\<close> works on Python \<^verbatim>\<open>str\<close> values.
  A \<^typ>\<open>string\<close> stands for such a value whose code points are all below 256, one
  \<^typ>\<open>char\<close> per code point; \<^term>\<open>length\<close> is Python's \<^verbatim>\<open>len\<close>. Text with code points
  from 256 on is outside the model.
\<close>

definition isspace :: "char \<Rightarrow> bool" where
  \<comment> \<open>the characters that \<^verbatim>\<open>str.strip()\<close>, \<^verbatim>\<open>lstrip()\<close> and \<^verbatim>\<open>rstrip()\<close> remove:
      tab, LF, VT, FF, CR, FS, GS, RS, US, space, NEL, NBSP\<close>
  "isspace c = (c = CHR 0x09 \<or> c = CHR 0x0A \<or> c = CHR 0x0B \<or> c = CHR 0x0C \<or> c = CHR 0x0D
     \<or> c = CHR 0x1C \<or> c = CHR 0x1D \<or> c = CHR 0x1E \<or> c = CHR 0x1F \<or> c = CHR 0x20
     \<or> c = CHR 0x85 \<or> c = CHR 0xA0)"

definition is_linebreak :: "char \<Rightarrow> bool" where
  \<comment> \<open>the line boundaries of \<^verbatim>\<open>str.splitlines()\<close>: LF, VT, FF, CR, FS, GS, RS, NEL\<close>
  "is_linebreak c = (c = CHR 0x0A \<or> c = CHR 0x0B \<or> c = CHR 0x0C \<or> c = CHR 0x0D
     \<or> c = CHR 0x1C \<or> c = CHR 0x1D \<or> c = CHR 0x1E \<or> c = CHR 0x85)"

definition lstrip :: "string \<Rightarrow> string" where
  "lstrip s = dropWhile isspace s"

definition rstrip :: "string \<Rightarrow> string" where
  "rstrip s = rev (dropWhile isspace (rev s))"

definition strip :: "string \<Rightarrow> string" where
  "strip s = rstrip (lstrip s)"

definition endswith :: "string \<Rightarrow> char \<Rightarrow> bool" where
  \<comment> \<open>\<^verbatim>\<open>s.endswith(c)\<close> for a one-character suffix\<close>
  "endswith s c = (case rev s of [] \<Rightarrow> False | x # _ \<Rightarrow> x = c)"

fun find_from :: "int \<Rightarrow> string \<Rightarrow> char \<Rightarrow> int" where
  "find_from i [] c = - 1"
| "find_from i (x # xs) c = (if x = c then i else find_from (i + 1) xs c)"

definition str_find :: "string \<Rightarrow> char \<Rightarrow> int" where
  \<comment> \<open>\<^verbatim>\<open>s.find(c)\<close>: the index of the first occurrence, or -1\<close>
  "str_find s c = find_from 0 s c"

definition spaces :: "int \<Rightarrow> string" where
  \<comment> \<open>\<^verbatim>\<open>' ' * n\<close>: empty when n is not positive\<close>
  "spaces n = replicate (nat n) CHR '' ''"

fun join :: "string \<Rightarrow> string list \<Rightarrow> string" where
  \<comment> \<open>\<^verbatim>\<open>sep.join(xs)\<close>\<close>
  "join sep [] = []"
| "join sep [x] = x"
| "join sep (x # y # ys) = x @ sep @ join sep (y # ys)"

fun splitlines_from :: "string \<Rightarrow> string \<Rightarrow> string list" where
  \<comment> \<open>the first argument is the line read so far; a string that ends in a line
      boundary has no empty last line; CR LF is one boundary\<close>
  "splitlines_from cur [] = (if cur = [] then [] else [cur])"
| "splitlines_from cur (c # cs) =
     (if is_linebreak c then
        (case cs of
           [] \<Rightarrow> [cur]
         | c2 # cs2 \<Rightarrow>
             if c = CHR 0x0D \<and> c2 = CHR 0x0A then cur # splitlines_from [] cs2
             else cur # splitlines_from [] (c2 # cs2))
      else splitlines_from (cur @ [c]) cs)"

definition splitlines :: "string \<Rightarrow> string list" where
  "splitlines s = splitlines_from [] s"

definition replace_tabs :: "string \<Rightarrow> string" where
  \<comment> \<open>\<^verbatim>\<open>source.replace('\t', '    ')\<close>\<close>
  "replace_tabs s = concat (map (\<lambda>c. if c = CHR 0x09 then ''    '' else [c]) s)"

datatype py_exception =
    IndexError
  | Raised string
  \<comment> \<open>\<open>Raised msg\<close>: an exception of class \<^verbatim>\<open>Exception\<close> raised by \<^verbatim>\<open>open\<close>, \<^verbatim>\<open>read\<close> or
      \<^verbatim>\<open>ast.parse\<close>, with \<^verbatim>\<open>str(e) = msg\<close>\<close>

fun str_of_exception :: "py_exception \<Rightarrow> string" where
  "str_of_exception IndexError = ''list index out of range''"
| "str_of_exception (Raised msg) = msg"

definition py_index :: "'a list \<Rightarrow> int \<Rightarrow> py_exception + 'a" where
  \<comment> \<open>\<^verbatim>\<open>xs[i]\<close>: a negative index counts from the end, an index out of range raises\<close>
  "py_index xs i =
     (let n = int (length xs); j = (if i < 0 then i + n else i)
      in if 0 \<le> j \<and> j < n then Inr (xs ! nat j) else Inl IndexError)"

definition triple_quote :: string where
  "triple_quote = [CHR 0x22, CHR 0x22, CHR 0x22]"

definition NL :: string where
  "NL = [CHR 0x0A]"

section \<open>The syntax tree\<close>

text \<open>
  \<^verbatim>\<open>ast.parse\<close> and \<^verbatim>\<open>ast.get_docstring\<close> belong to the Python library. A statement of a
  body carries what the extractor reads from it: \<^verbatim>\<open>node.lineno\<close>, the value of
  \<^verbatim>\<open>ast.get_docstring(node)\<close> (\<open>None\<close> when the node has no documentation) and
  \<^verbatim>\<open>node.body\<close>. \<^verbatim>\<open>ast.AsyncFunctionDef\<close> is a class of its own, not a subclass of
  \<^verbatim>\<open>ast.FunctionDef\<close>. \<open>OtherStmt\<close> is any other statement, with the statements nested
  in it.
\<close>

datatype stmt =
    FunctionDef int "string option" "stmt list"
  | AsyncFunctionDef int "string option" "stmt list"
  | ClassDef int "string option" "stmt list"
  | OtherStmt "stmt list"

section \<open>Header reconstruction: \<^verbatim>\<open>get_signature\<close>\<close>

definition first_line_of :: "int \<Rightarrow> string \<Rightarrow> string" where
  "first_line_of parent_indentation line =
     (if parent_indentation > 0 then spaces parent_indentation @ lstrip line else line)"

definition continuation_line :: "int \<Rightarrow> string \<Rightarrow> string \<Rightarrow> string" where
  "continuation_line parent_indentation first_line next_line =
     (if parent_indentation > 0 then
        (let first_line_stripped = lstrip first_line;
             paren_pos = str_find first_line_stripped CHR ''(''
         in if paren_pos \<noteq> - 1 then
              (let align_pos = parent_indentation + paren_pos + 1;
                   next_line_content = lstrip next_line
               in spaces align_pos @ next_line_content)
            else spaces (parent_indentation + 4) @ lstrip next_line)
      else next_line)"

function signature_loop ::
  "string list \<Rightarrow> int \<Rightarrow> string \<Rightarrow> int \<Rightarrow> string list \<Rightarrow> py_exception + string list" where
  "signature_loop source_lines parent_indentation first_line line_index signature_lines =
     (case py_index signature_lines (- 1) of
        Inl e \<Rightarrow> Inl e
      | Inr last_line \<Rightarrow>
          if endswith (rstrip last_line) CHR '':'' then Inr signature_lines
          else if line_index + 1 \<ge> int (length source_lines) then Inr signature_lines
          else (case py_index source_lines (line_index + 1) of
                  Inl e \<Rightarrow> Inl e
                | Inr next_line \<Rightarrow>
                    signature_loop source_lines parent_indentation first_line (line_index + 1)
                      (signature_lines @
                         [continuation_line parent_indentation first_line next_line])))"
  by pat_completeness auto
termination
  by (relation "measure (\<lambda>(source_lines, p, first_line, line_index, signature_lines).
        nat (int (length source_lines) - line_index))") auto

declare signature_loop.simps [simp del]

definition get_signature_lines :: "string list \<Rightarrow> int \<Rightarrow> int \<Rightarrow> py_exception + string list" where
  \<comment> \<open>the list \<^verbatim>\<open>signature_lines\<close> when the loop of \<^verbatim>\<open>get_signature\<close> has ended\<close>
  "get_signature_lines source_lines lineno parent_indentation =
     (let line_index = lineno - 1 in
      case py_index source_lines line_index of
        Inl e \<Rightarrow> Inl e
      | Inr line \<Rightarrow>
          (let first_line = first_line_of parent_indentation line
           in signature_loop source_lines parent_indentation first_line line_index [first_line]))"

definition get_signature :: "string list \<Rightarrow> int \<Rightarrow> int \<Rightarrow> py_exception + string" where
  "get_signature source_lines lineno parent_indentation =
     (case get_signature_lines source_lines lineno parent_indentation of
        Inl e \<Rightarrow> Inl e
      | Inr signature_lines \<Rightarrow> Inr (join NL signature_lines))"

section \<open>Documentation normalisation: \<^verbatim>\<open>normalize_docstring\<close>\<close>

definition curr_indent :: "string \<Rightarrow> nat" where
  \<comment> \<open>\<^verbatim>\<open>len(line) - len(line.lstrip())\<close>, never negative\<close>
  "curr_indent line = length line - length (lstrip line)"

fun min_indent_loop :: "string list \<Rightarrow> enat \<Rightarrow> enat" where
  \<comment> \<open>the first loop; \<^verbatim>\<open>float('inf')\<close> is \<open>\<infinity>\<close>\<close>
  "min_indent_loop [] min_indent = min_indent"
| "min_indent_loop (line # rest) min_indent =
     min_indent_loop rest
       (if strip line \<noteq> [] then min min_indent (enat (curr_indent line)) else min_indent)"

fun normalized_loop :: "nat \<Rightarrow> int \<Rightarrow> string list \<Rightarrow> string list \<Rightarrow> string list" where
  \<comment> \<open>the second loop, appending to \<^verbatim>\<open>normalized\<close>\<close>
  "normalized_loop min_indent indentation [] normalized = normalized"
| "normalized_loop min_indent indentation (line # rest) normalized =
     normalized_loop min_indent indentation rest
       (normalized @
          [if strip line \<noteq> [] then spaces indentation @ drop min_indent line else []])"

definition normalize_docstring :: "string \<Rightarrow> int \<Rightarrow> py_exception + string option" where
  "normalize_docstring docstring indentation =
     (if docstring = [] then Inr None
      else
        (let lines = splitlines docstring in
         if length lines = 1 then Inr (Some docstring)
         else
           (let min_indent = min_indent_loop (drop 1 lines) \<infinity>;
                min_indent = (if min_indent = \<infinity> then 0 else the_enat min_indent)
            in case py_index lines 0 of
                 Inl e \<Rightarrow> Inl e
               | Inr line0 \<Rightarrow>
                   Inr (Some (join NL
                     (normalized_loop min_indent indentation (drop 1 lines) [line0]))))))"

section \<open>The orchestrator: \<^verbatim>\<open>extract_signatures_and_docstrings\<close>\<close>

fun format_value :: "string option \<Rightarrow> string" where
  \<comment> \<open>an f-string field holding a string or \<^verbatim>\<open>None\<close>\<close>
  "format_value None = ''None''"
| "format_value (Some s) = s"

definition function_entry :: "string list \<Rightarrow> int \<Rightarrow> string option \<Rightarrow> py_exception + string" where
  \<comment> \<open>the branch for a top-level \<^verbatim>\<open>ast.FunctionDef\<close>\<close>
  "function_entry source_lines lineno get_docstring =
     (case get_signature source_lines lineno 0 of
        Inl e \<Rightarrow> Inl e
      | Inr signature \<Rightarrow>
          (case get_docstring of
             None \<Rightarrow> Inr signature
           | Some docstring \<Rightarrow>
               if docstring \<noteq> [] then
                 (case normalize_docstring docstring 4 of
                    Inl e \<Rightarrow> Inl e
                  | Inr docstring' \<Rightarrow>
                      Inr (signature @ NL @ ''    '' @ triple_quote @ format_value docstring'
                             @ triple_quote))
               else Inr signature))"

definition class_entry :: "string list \<Rightarrow> int \<Rightarrow> string option \<Rightarrow> py_exception + string" where
  \<comment> \<open>the header and documentation of a top-level \<^verbatim>\<open>ast.ClassDef\<close>\<close>
  "class_entry source_lines lineno get_docstring =
     (case get_signature source_lines lineno 0 of
        Inl e \<Rightarrow> Inl e
      | Inr class_sig \<Rightarrow>
          (case get_docstring of
             None \<Rightarrow> Inr class_sig
           | Some class_docstring \<Rightarrow>
               if class_docstring \<noteq> [] then
                 (case normalize_docstring class_docstring 4 of
                    Inl e \<Rightarrow> Inl e
                  | Inr class_docstring' \<Rightarrow>
                      Inr (class_sig @ NL @ ''    '' @ triple_quote
                             @ format_value class_docstring' @ triple_quote))
               else Inr class_sig))"

definition method_entry :: "string list \<Rightarrow> int \<Rightarrow> string option \<Rightarrow> py_exception + string" where
  \<comment> \<open>a \<^verbatim>\<open>ast.FunctionDef\<close> of a class body\<close>
  "method_entry source_lines lineno get_docstring =
     (case get_signature source_lines lineno 4 of
        Inl e \<Rightarrow> Inl e
      | Inr method_sig \<Rightarrow>
          (case get_docstring of
             None \<Rightarrow> Inr method_sig
           | Some method_docstring \<Rightarrow>
               if method_docstring \<noteq> [] then
                 (case normalize_docstring method_docstring 8 of
                    Inl e \<Rightarrow> Inl e
                  | Inr method_docstring' \<Rightarrow>
                      Inr (method_sig @ NL @ ''        '' @ triple_quote
                             @ format_value method_docstring' @ triple_quote))
               else Inr method_sig))"

fun methods_loop :: "string list \<Rightarrow> stmt list \<Rightarrow> string list \<Rightarrow> py_exception + string list" where
  \<comment> \<open>\<^verbatim>\<open>for item in node.body\<close>, appending to \<^verbatim>\<open>results\<close>\<close>
  "methods_loop source_lines [] results = Inr results"
| "methods_loop source_lines (item # items) results =
     (case item of
        FunctionDef lineno get_docstring body \<Rightarrow>
          (case method_entry source_lines lineno get_docstring of
             Inl e \<Rightarrow> Inl e
           | Inr entry \<Rightarrow> methods_loop source_lines items (results @ [entry]))
      | _ \<Rightarrow> methods_loop source_lines items results)"

fun module_loop :: "string list \<Rightarrow> stmt list \<Rightarrow> string list \<Rightarrow> py_exception + string list" where
  \<comment> \<open>\<^verbatim>\<open>for node in module.body\<close>, appending to \<^verbatim>\<open>results\<close>\<close>
  "module_loop source_lines [] results = Inr results"
| "module_loop source_lines (node # nodes) results =
     (case node of
        FunctionDef lineno get_docstring body \<Rightarrow>
          (case function_entry source_lines lineno get_docstring of
             Inl e \<Rightarrow> Inl e
           | Inr entry \<Rightarrow> module_loop source_lines nodes (results @ [entry]))
      | ClassDef lineno get_docstring body \<Rightarrow>
          (case class_entry source_lines lineno get_docstring of
             Inl e \<Rightarrow> Inl e
           | Inr entry \<Rightarrow>
               (case methods_loop source_lines body (results @ [entry]) of
                  Inl e \<Rightarrow> Inl e
                | Inr results' \<Rightarrow> module_loop source_lines nodes results'))
      | _ \<Rightarrow> module_loop source_lines nodes results)"

definition extract_results ::
  "string list \<Rightarrow> stmt list \<Rightarrow> py_exception + string list" where
  \<comment> \<open>the list \<^verbatim>\<open>results\<close> after the loop over \<^verbatim>\<open>module.body\<close>\<close>
  "extract_results source_lines module_body = module_loop source_lines module_body []"

definition try_body ::
  "(string \<Rightarrow> py_exception + string) \<Rightarrow> (string \<Rightarrow> py_exception + stmt list) \<Rightarrow> string
     \<Rightarrow> py_exception + string" where
  \<comment> \<open>the \<^verbatim>\<open>try\<close> block. \<open>read_file\<close> is \<^verbatim>\<open>open(file_path, 'r')\<close> followed by \<^verbatim>\<open>f.read()\<close>,
      \<open>ast_parse\<close> gives \<^verbatim>\<open>ast.parse(source).body\<close>; either may raise\<close>
  "try_body read_file ast_parse file_path =
     (case read_file file_path of
        Inl e \<Rightarrow> Inl e
      | Inr source0 \<Rightarrow>
          (let source = replace_tabs source0 in
           case ast_parse source of
             Inl e \<Rightarrow> Inl e
           | Inr module_body \<Rightarrow>
               (let source_lines = splitlines source in
                case extract_results source_lines module_body of
                  Inl e \<Rightarrow> Inl e
                | Inr results \<Rightarrow> Inr (join (NL @ NL) results))))"

definition extract_signatures_and_docstrings ::
  "(string \<Rightarrow> py_exception + string) \<Rightarrow> (string \<Rightarrow> py_exception + stmt list) \<Rightarrow> string
     \<Rightarrow> string" where
  "extract_signatures_and_docstrings read_file ast_parse file_path =
     (case try_body read_file ast_parse file_path of
        Inl e \<Rightarrow>
          ''Error extracting signatures from '' @ file_path @ '': '' @ str_of_exception e
      | Inr text \<Rightarrow> text)"

section \<open>The declarations of a module, in source order\<close>

text \<open>
  The declarations that the extractor renders, as the specification lists them: the
  function and class definitions among the statements of the module body, in the order
  of the body, and after each class the function definitions among the statements of
  its body, in the order of that body. Nothing nested deeper is listed.
\<close>

datatype decl =
    TopLevelFunction int "string option"
  | TopLevelClass int "string option"
  | Method int "string option"

fun method_declarations :: "stmt list \<Rightarrow> decl list" where
  "method_declarations [] = []"
| "method_declarations (FunctionDef lineno doc body # items) =
     Method lineno doc # method_declarations items"
| "method_declarations (_ # items) = method_declarations items"

fun declarations :: "stmt list \<Rightarrow> decl list" where
  "declarations [] = []"
| "declarations (FunctionDef lineno doc body # nodes) =
     TopLevelFunction lineno doc # declarations nodes"
| "declarations (ClassDef lineno doc body # nodes) =
     TopLevelClass lineno doc # method_declarations body @ declarations nodes"
| "declarations (_ # nodes) = declarations nodes"

fun render_declaration :: "string list \<Rightarrow> decl \<Rightarrow> py_exception + string" where
  "render_declaration source_lines (TopLevelFunction lineno doc) =
     function_entry source_lines lineno doc"
| "render_declaration source_lines (TopLevelClass lineno doc) =
     class_entry source_lines lineno doc"
| "render_declaration source_lines (Method lineno doc) =
     method_entry source_lines lineno doc"

fun collect :: "(py_exception + 'a) list \<Rightarrow> py_exception + 'a list" where
  \<comment> \<open>the results of a sequence of computations, up to the first that raises\<close>
  "collect [] = Inr []"
| "collect (x # xs) =
     (case x of
        Inl e \<Rightarrow> Inl e
      | Inr v \<Rightarrow> (case collect xs of Inl e \<Rightarrow> Inl e | Inr vs \<Rightarrow> Inr (v # vs)))"

definition append_results :: "'a list \<Rightarrow> py_exception + 'a list \<Rightarrow> py_exception + 'a list" where
  "append_results results r = (case r of Inl e \<Rightarrow> Inl e | Inr vs \<Rightarrow> Inr (results @ vs))"

section \<open>Modules without asynchronous definitions\<close>

fun is_async :: "stmt \<Rightarrow> bool" where
  "is_async (AsyncFunctionDef lineno doc body) = True"
| "is_async _ = False"

fun without_async_methods :: "stmt \<Rightarrow> stmt" where
  "without_async_methods (ClassDef lineno doc body) =
     ClassDef lineno doc (filter (\<lambda>item. \<not> is_async item) body)"
| "without_async_methods node = node"

definition without_async :: "stmt list \<Rightarrow> stmt list" where
  \<comment> \<open>the module body with every \<^verbatim>\<open>async def\<close> deleted, among the statements of the
      module and among those of each top-level class\<close>
  "without_async module_body =
     map without_async_methods (filter (\<lambda>node. \<not> is_async node) module_body)"

section \<open>Text on one line\<close>

definition single_line :: "string \<Rightarrow> bool" where
  \<comment> \<open>no line boundary occurs in the text\<close>
  "single_line s = (filter is_linebreak s = [])"

section \<open>The lines of a header\<close>

definition ends_with_colon :: "string \<Rightarrow> bool" where
  \<comment> \<open>the test of the header loop, \<^verbatim>\<open>line.rstrip().endswith(':')\<close>\<close>
  "ends_with_colon line = endswith (rstrip line) CHR '':''"

fun take_through :: "('a \<Rightarrow> bool) \<Rightarrow> 'a list \<Rightarrow> 'a list" where
  \<comment> \<open>the elements up to and including the first that satisfies the test\<close>
  "take_through P [] = []"
| "take_through P (x # xs) = (if P x then [x] else x # take_through P xs)"

definition header_lines :: "string list \<Rightarrow> nat \<Rightarrow> string list" where
  \<comment> \<open>the source lines of a header that starts at index \<open>i\<close>\<close>
  "header_lines source_lines i = take_through ends_with_colon (drop i source_lines)"

section \<open>The normalised lines of a documentation string\<close>

definition empty_line :: "string \<Rightarrow> bool" where
  \<comment> \<open>the lines that both loops of \<^verbatim>\<open>normalize_docstring\<close> treat as empty: the test
      \<^verbatim>\<open>line.strip()\<close> fails, so the line holds no character other than whitespace\<close>
  "empty_line line = (strip line = [])"

definition min_indent_of :: "string list \<Rightarrow> nat" where
  \<comment> \<open>the least leading-whitespace width among the lines that are not empty, 0 when
      there is none\<close>
  "min_indent_of rest =
     (if filter (\<lambda>line. \<not> empty_line line) rest = [] then 0
      else Min (set (map curr_indent (filter (\<lambda>line. \<not> empty_line line) rest))))"

definition normalized_line :: "nat \<Rightarrow> int \<Rightarrow> string \<Rightarrow> string" where
  "normalized_line m d line = (if empty_line line then [] else spaces d @ drop m line)"

section \<open>The rendered lines of a documentation string\<close>

fun close_last :: "string list \<Rightarrow> string \<Rightarrow> string list" where
  \<comment> \<open>the lines with a suffix added to the last of them\<close>
  "close_last [] q = [q]"
| "close_last [x] q = [x @ q]"
| "close_last (x # y # ys) q = x # close_last (y # ys) q"

definition rendered_doc_lines :: "nat \<Rightarrow> string \<Rightarrow> string list" where
  \<comment> \<open>the lines that follow the header in a block: the documentation between triple
      quotes, the opening quotes after \<open>depth\<close> spaces\<close>
  "rendered_doc_lines depth docstring =
     (case splitlines docstring of
        [] \<Rightarrow> [replicate depth CHR '' '' @ triple_quote @ docstring @ triple_quote]
      | first # rest \<Rightarrow>
          if rest = [] then [replicate depth CHR '' '' @ triple_quote @ docstring @ triple_quote]
          else close_last
                 ((replicate depth CHR '' '' @ triple_quote @ first) #
                    map (normalized_line (min_indent_of rest) (int depth)) rest)
                 triple_quote)"

section \<open>Properties of the extractor\<close>

subsection \<open>Order of the rendered blocks\<close>

lemma collect_append:
  "collect (xs @ ys) =
     (case collect xs of Inl e \<Rightarrow> Inl e | Inr a \<Rightarrow> append_results a (collect ys))"
  by (induction xs) (auto simp: append_results_def split: sum.splits)

lemma methods_loop_collect:
  "methods_loop sl items results =
     append_results results (collect (map (render_declaration sl) (method_declarations items)))"
proof (induction items arbitrary: results)
  case Nil
  show ?case by (simp add: append_results_def)
next
  case (Cons item items)
  show ?case
    by (cases item) (auto simp: Cons.IH append_results_def split: sum.splits)
qed

lemma module_loop_collect:
  "module_loop sl nodes results =
     append_results results (collect (map (render_declaration sl) (declarations nodes)))"
proof (induction nodes arbitrary: results)
  case Nil
  show ?case by (simp add: append_results_def)
next
  case (Cons node nodes)
  show ?case
    by (cases node)
      (auto simp: Cons.IH methods_loop_collect collect_append append_results_def
            split: sum.splits)
qed

text \<open>
  Claim C8. The list of rendered blocks is the list of the module's declarations in source
  order, each rendered in turn: top-level functions and classes in the order of the module
  body, the direct methods of a class right after the block of that class and in the order
  of the class body. Only the statements of the module body and of class bodies are looked
  at: \<^const>\<open>declarations\<close> never enters the body of a function, of a nested class or of
  another statement. For a file that is read and parsed, the text that
  \<^verbatim>\<open>extract_signatures_and_docstrings\<close> returns is these blocks in this order, with an
  empty line between two blocks; an exception raised while rendering a block ends the
  extraction, as \<^const>\<open>collect\<close> does, and the diagnostic is returned instead.
\<close>

theorem blocks_in_source_order:
  "extract_results source_lines module_body =
     collect (map (render_declaration source_lines) (declarations module_body))
   \<and> (read_file file_path = Inr source \<and> ast_parse (replace_tabs source) = Inr module_body \<longrightarrow>
        extract_signatures_and_docstrings read_file ast_parse file_path =
          (case collect (map (render_declaration (splitlines (replace_tabs source)))
                  (declarations module_body)) of
             Inl e \<Rightarrow>
               ''Error extracting signatures from '' @ file_path @ '': '' @ str_of_exception e
           | Inr blocks \<Rightarrow> join (NL @ NL) blocks))"
  by (simp add: extract_signatures_and_docstrings_def try_body_def extract_results_def
        module_loop_collect append_results_def split: sum.splits)

theorem blocks_in_source_order_witness:
  "declarations
      [FunctionDef 1 None [FunctionDef 2 None []],
       ClassDef 4 None [OtherStmt [], FunctionDef 6 None [], AsyncFunctionDef 8 None [],
                        ClassDef 10 None [FunctionDef 11 None []], FunctionDef 13 None []],
       OtherStmt [FunctionDef 16 None []],
       FunctionDef 18 None []] =
     [TopLevelFunction 1 None, TopLevelClass 4 None, Method 6 None, Method 13 None,
      TopLevelFunction 18 None]
   \<and> extract_signatures_and_docstrings
      (\<lambda>p. Inr
        (''def first():\<newline>    def inner():\<newline>        pass\<newline>''
         @ ''class Box:\<newline>    size = 1\<newline>    def get(self):\<newline>        pass\<newline>''
         @ ''    async def fetch(self):\<newline>        pass\<newline>''
         @ ''    class Inner:\<newline>        def deep(self):\<newline>            pass\<newline>''
         @ ''    def put(self):\<newline>        pass\<newline>''
         @ ''if True:\<newline>    def hidden():\<newline>        pass\<newline>''
         @ ''def last():\<newline>    pass''))
      (\<lambda>s. Inr
        [FunctionDef 1 None [FunctionDef 2 None []],
         ClassDef 4 None [OtherStmt [], FunctionDef 6 None [], AsyncFunctionDef 8 None [],
                          ClassDef 10 None [FunctionDef 11 None []], FunctionDef 13 None []],
         OtherStmt [FunctionDef 16 None []],
         FunctionDef 18 None []])
      ''box.py'' =
     ''def first():\<newline>\<newline>class Box:\<newline>\<newline>    def get(self):\<newline>\<newline>    def put(self):\<newline>\<newline>def last():''"
proof -
  let ?source = "''def first():\<newline>    def inner():\<newline>        pass\<newline>''
         @ ''class Box:\<newline>    size = 1\<newline>    def get(self):\<newline>        pass\<newline>''
         @ ''    async def fetch(self):\<newline>        pass\<newline>''
         @ ''    class Inner:\<newline>        def deep(self):\<newline>            pass\<newline>''
         @ ''    def put(self):\<newline>        pass\<newline>''
         @ ''if True:\<newline>    def hidden():\<newline>        pass\<newline>''
         @ ''def last():\<newline>    pass''"
  let ?body = "[FunctionDef 1 None [FunctionDef 2 None []],
       ClassDef 4 None [OtherStmt [], FunctionDef 6 None [], AsyncFunctionDef 8 None [],
                        ClassDef 10 None [FunctionDef 11 None []], FunctionDef 13 None []],
       OtherStmt [FunctionDef 16 None []],
       FunctionDef 18 None []]"
  have decls: "declarations ?body =
      [TopLevelFunction 1 None, TopLevelClass 4 None, Method 6 None, Method 13 None,
       TopLevelFunction 18 None]"
    by simp
  have blocks: "(case collect (map (render_declaration (splitlines (replace_tabs ?source)))
        (declarations ?body)) of
      Inl e \<Rightarrow> ''Error extracting signatures from '' @ ''box.py'' @ '': '' @ str_of_exception e
    | Inr blocks \<Rightarrow> join (NL @ NL) blocks) =
      ''def first():\<newline>\<newline>class Box:\<newline>\<newline>    def get(self):\<newline>\<newline>    def put(self):\<newline>\<newline>def last():''"
    by code_simp
  have "(\<lambda>p::string. Inr ?source :: py_exception + string) ''box.py'' = Inr ?source
      \<and> (\<lambda>s::string. Inr ?body :: py_exception + stmt list) (replace_tabs ?source) = Inr ?body"
    by (intro conjI refl)
  with blocks_in_source_order
    [of "splitlines (replace_tabs ?source)" ?body "\<lambda>p. Inr ?source" "''box.py''" ?source
        "\<lambda>s. Inr ?body"]
  have "extract_signatures_and_docstrings (\<lambda>p. Inr ?source) (\<lambda>s. Inr ?body) ''box.py'' =
      (case collect (map (render_declaration (splitlines (replace_tabs ?source)))
          (declarations ?body)) of
        Inl e \<Rightarrow> ''Error extracting signatures from '' @ ''box.py'' @ '': '' @ str_of_exception e
      | Inr blocks \<Rightarrow> join (NL @ NL) blocks)"
    by blast
  then have "extract_signatures_and_docstrings (\<lambda>p. Inr ?source) (\<lambda>s. Inr ?body) ''box.py'' =
      ''def first():\<newline>\<newline>class Box:\<newline>\<newline>    def get(self):\<newline>\<newline>    def put(self):\<newline>\<newline>def last():''"
    by (simp only: blocks)
  with decls show ?thesis by (intro conjI)
qed

subsection \<open>Asynchronous definitions\<close>

lemma method_declarations_without_async:
  "method_declarations (filter (\<lambda>item. \<not> is_async item) items) = method_declarations items"
  by (induction items rule: method_declarations.induct) auto

lemma declarations_without_async:
  "declarations (without_async nodes) = declarations nodes"
  unfolding without_async_def
  by (induction nodes rule: declarations.induct) (auto simp: method_declarations_without_async)

text \<open>
  Claim C9. A declaration introduced with \<^verbatim>\<open>async def\<close> produces no block, neither as a
  statement of the module nor as a statement of a class body: deleting every such
  declaration from the tree leaves the rendered blocks unchanged, a module that holds one
  alone renders to no block, and a class whose body holds one alone renders as the class
  with an empty body.
\<close>

theorem async_definitions_excluded:
  "extract_results source_lines (without_async module_body) =
     extract_results source_lines module_body
   \<and> extract_results source_lines [AsyncFunctionDef lineno doc body] = Inr []
   \<and> extract_results source_lines [ClassDef lineno' doc' [AsyncFunctionDef lineno doc body]] =
       extract_results source_lines [ClassDef lineno' doc' []]"
  by (simp add: extract_results_def module_loop_collect declarations_without_async
        append_results_def split: sum.splits)

subsection \<open>The empty documentation string\<close>

text \<open>
  Claim C10. \<^verbatim>\<open>normalize_docstring\<close> returns \<^verbatim>\<open>None\<close> on the empty string, and a
  declaration whose documentation string is empty is rendered as its header alone, which
  is also the rendering of a declaration without documentation: for a top-level function,
  for a class and for a method.
\<close>

theorem empty_docstring_rendered_as_absent:
  "normalize_docstring [] indentation = Inr None
   \<and> function_entry source_lines lineno (Some []) = get_signature source_lines lineno 0
   \<and> function_entry source_lines lineno None = get_signature source_lines lineno 0
   \<and> class_entry source_lines lineno (Some []) = get_signature source_lines lineno 0
   \<and> class_entry source_lines lineno None = get_signature source_lines lineno 0
   \<and> method_entry source_lines lineno (Some []) = get_signature source_lines lineno 4
   \<and> method_entry source_lines lineno None = get_signature source_lines lineno 4"
  by (simp add: normalize_docstring_def function_entry_def class_entry_def method_entry_def
        split: sum.splits)

subsection \<open>Failures of an extraction\<close>

lemma single_line_append: "single_line (a @ b) = (single_line a \<and> single_line b)"
  by (simp add: single_line_def)

text \<open>
  Claim C1, as amended. The extractor is a total function of the file's path, of what
  reading the file gives and of what the parser gives: it returns a string in every case,
  so no exception of class \<^verbatim>\<open>Exception\<close> passes its boundary, and an extraction that fails
  cannot end a run over many files. When reading fails, when parsing fails, or when
  rendering raises, the string returned is
  \<^verbatim>\<open>Error extracting signatures from <path>: <message>\<close>. That string is on one line
  when neither the path nor the message holds a line boundary.
\<close>

theorem failure_returned_as_diagnostic:
  "(read_file file_path = Inl e \<longrightarrow>
      extract_signatures_and_docstrings read_file ast_parse file_path =
        ''Error extracting signatures from '' @ file_path @ '': '' @ str_of_exception e)
   \<and> (read_file file_path = Inr source \<and> ast_parse (replace_tabs source) = Inl e \<longrightarrow>
      extract_signatures_and_docstrings read_file ast_parse file_path =
        ''Error extracting signatures from '' @ file_path @ '': '' @ str_of_exception e)
   \<and> (read_file file_path = Inr source \<and> ast_parse (replace_tabs source) = Inr module_body
        \<and> extract_results (splitlines (replace_tabs source)) module_body = Inl e \<longrightarrow>
      extract_signatures_and_docstrings read_file ast_parse file_path =
        ''Error extracting signatures from '' @ file_path @ '': '' @ str_of_exception e)
   \<and> (single_line file_path \<and> single_line (str_of_exception e) \<longrightarrow>
      single_line
        (''Error extracting signatures from '' @ file_path @ '': '' @ str_of_exception e))"
  by (simp add: extract_signatures_and_docstrings_def try_body_def single_line_append)
    (simp add: single_line_def is_linebreak_def)

theorem failure_returned_as_diagnostic_witness:
  "extract_signatures_and_docstrings (\<lambda>p. Inl (Raised ''[Errno 13] Permission denied''))
      (\<lambda>s. Inr []) ''x.py'' =
     ''Error extracting signatures from x.py: [Errno 13] Permission denied''
   \<and> extract_signatures_and_docstrings (\<lambda>p. Inr ''def ('')
      (\<lambda>s. Inl (Raised ''invalid syntax (<unknown>, line 1)'')) ''x.py'' =
     ''Error extracting signatures from x.py: invalid syntax (<unknown>, line 1)''
   \<and> extract_signatures_and_docstrings (\<lambda>p. Inr ''def f(): pass'')
      (\<lambda>s. Inr [FunctionDef 7 None []]) ''x.py'' =
     ''Error extracting signatures from x.py: list index out of range''
   \<and> single_line ''Error extracting signatures from x.py: list index out of range''"
proof -
  have read: "(\<lambda>p::string. Inl (Raised ''[Errno 13] Permission denied'') :: py_exception + string)
      ''x.py'' = Inl (Raised ''[Errno 13] Permission denied'')"
    by simp
  have parse: "(\<lambda>s::string. Inl (Raised ''invalid syntax (<unknown>, line 1)'')
      :: py_exception + stmt list) (replace_tabs ''def ('')
      = Inl (Raised ''invalid syntax (<unknown>, line 1)'')"
    by simp
  have render: "extract_results (splitlines (replace_tabs ''def f(): pass''))
      [FunctionDef 7 None []] = Inl IndexError"
    by code_simp
  have sl: "single_line ''x.py'' \<and> single_line (str_of_exception IndexError)"
    by code_simp
  show ?thesis
    using failure_returned_as_diagnostic
      [of "\<lambda>p. Inl (Raised ''[Errno 13] Permission denied'')" "''x.py''"
          "Raised ''[Errno 13] Permission denied''" "\<lambda>s. Inr []" "[]" "[]"]
      failure_returned_as_diagnostic
      [of "\<lambda>p. Inr ''def (''" "''x.py''" "Raised ''invalid syntax (<unknown>, line 1)''"
          "\<lambda>s. Inl (Raised ''invalid syntax (<unknown>, line 1)'')" "''def (''" "[]"]
      failure_returned_as_diagnostic
      [of "\<lambda>p. Inr ''def f(): pass''" "''x.py''" IndexError
          "\<lambda>s. Inr [FunctionDef 7 None []]" "''def f(): pass''" "[FunctionDef 7 None []]"]
      read parse render sl
    by simp
qed

text \<open>
  The claim as stated promises one line for every path. A file name may hold a newline;
  for the file \<^verbatim>\<open>a\nb.py\<close> with a syntax error the diagnostic spans two lines.
\<close>

theorem diagnostic_spans_two_lines:
  "extract_signatures_and_docstrings (\<lambda>p. Inr ''def ('')
      (\<lambda>s. Inl (Raised ''invalid syntax (<unknown>, line 1)'')) ''a\<newline>b.py'' =
     ''Error extracting signatures from a\<newline>b.py: invalid syntax (<unknown>, line 1)''
   \<and> splitlines (extract_signatures_and_docstrings (\<lambda>p. Inr ''def ('')
      (\<lambda>s. Inl (Raised ''invalid syntax (<unknown>, line 1)'')) ''a\<newline>b.py'') =
     [''Error extracting signatures from a'', ''b.py: invalid syntax (<unknown>, line 1)'']
   \<and> \<not> single_line (extract_signatures_and_docstrings (\<lambda>p. Inr ''def ('')
      (\<lambda>s. Inl (Raised ''invalid syntax (<unknown>, line 1)'')) ''a\<newline>b.py'')"
  by code_simp

subsection \<open>Header reconstruction\<close>

lemma py_index_last: "xs \<noteq> [] \<Longrightarrow> py_index xs (- 1) = Inr (last xs)"
  by (cases xs rule: rev_cases) (auto simp: py_index_def Let_def nth_append)

lemma py_index_nat:
  "0 \<le> i \<Longrightarrow> i < int (length xs) \<Longrightarrow> py_index xs i = Inr (xs ! nat i)"
  by (simp add: py_index_def Let_def)

lemma py_index_beyond: "int (length xs) \<le> i \<Longrightarrow> py_index xs i = Inl IndexError"
  by (simp add: py_index_def Let_def)

lemma isspace_space [simp]: "isspace CHR '' ''"
  by (simp add: isspace_def)

lemma not_isspace_colon [simp]: "\<not> isspace CHR '':''"
  by (simp add: isspace_def)

lemma ends_with_colon_alt:
  "ends_with_colon line =
     (case dropWhile isspace (rev line) of [] \<Rightarrow> False | x # _ \<Rightarrow> x = CHR '':'')"
  by (simp add: ends_with_colon_def endswith_def rstrip_def)

lemma ends_with_colon_blank_prefix:
  assumes "\<forall>x \<in> set w. isspace x"
  shows "ends_with_colon (w @ r) = ends_with_colon r"
proof (cases "\<forall>x \<in> set r. isspace x")
  case True
  with assms have "dropWhile isspace (rev (w @ r)) = []" "dropWhile isspace (rev r) = []"
    by (auto simp: dropWhile_eq_Nil_conv)
  then show ?thesis by (simp only: ends_with_colon_alt)
next
  case False
  then obtain x where "x \<in> set (rev r)" "\<not> isspace x" by auto
  then have "dropWhile isspace (rev r @ rev w) = dropWhile isspace (rev r) @ rev w"
    by (rule dropWhile_append1)
  moreover have "dropWhile isspace (rev r) \<noteq> []"
    using False by (auto simp: dropWhile_eq_Nil_conv)
  ultimately show ?thesis
    by (cases "dropWhile isspace (rev r)") (simp_all add: ends_with_colon_alt)
qed

lemma spaces_isspace: "\<forall>x \<in> set (spaces n). isspace x"
  by (simp add: spaces_def)

lemma ends_with_colon_lstrip: "ends_with_colon (lstrip line) = ends_with_colon line"
proof -
  have "ends_with_colon (takeWhile isspace line @ dropWhile isspace line) =
      ends_with_colon (dropWhile isspace line)"
    by (rule ends_with_colon_blank_prefix) (auto dest: set_takeWhileD)
  then show ?thesis by (simp add: lstrip_def)
qed

lemma ends_with_colon_reindent:
  "ends_with_colon (spaces n @ lstrip line) = ends_with_colon line"
  using ends_with_colon_blank_prefix [OF spaces_isspace, of n "lstrip line"]
  by (simp add: ends_with_colon_lstrip)

lemma ends_with_colon_first_line:
  "ends_with_colon (first_line_of p line) = ends_with_colon line"
  by (simp add: first_line_of_def ends_with_colon_reindent)

lemma ends_with_colon_continuation:
  "ends_with_colon (continuation_line p first_line line) = ends_with_colon line"
  by (simp add: continuation_line_def Let_def ends_with_colon_reindent)

lemma lstrip_reindent: "lstrip (spaces n @ lstrip line) = lstrip line"
proof -
  have "dropWhile isspace (spaces n @ dropWhile isspace line) =
      dropWhile isspace (dropWhile isspace line)"
    by (rule dropWhile_append2) (simp add: spaces_def)
  then show ?thesis by (simp add: lstrip_def)
qed

lemma take_through_map: "take_through P (map f xs) = map f (take_through (\<lambda>x. P (f x)) xs)"
  by (induction xs) auto

lemma signature_loop_unfold:
  assumes "0 \<le> line_index" "line_index < int (length source_lines)" "signature_lines \<noteq> []"
  shows "signature_loop source_lines p first_line line_index signature_lines =
     Inr (if ends_with_colon (last signature_lines) then signature_lines
          else signature_lines @
            take_through ends_with_colon
              (map (continuation_line p first_line) (drop (nat line_index + 1) source_lines)))"
  using assms
proof (induction source_lines p first_line line_index signature_lines
    rule: signature_loop.induct)
  case (1 source_lines p first_line line_index signature_lines)
  note last = py_index_last [OF "1.prems"(3)]
  show ?case
  proof (cases "ends_with_colon (last signature_lines)")
    case True
    then show ?thesis
      by (subst signature_loop.simps) (simp add: last ends_with_colon_def)
  next
    case no_colon: False
    show ?thesis
    proof (cases "line_index + 1 \<ge> int (length source_lines)")
      case True
      then have "drop (nat line_index + 1) source_lines = []"
        using "1.prems" by simp
      with True no_colon show ?thesis
        by (subst signature_loop.simps) (simp add: last ends_with_colon_def)
    next
      case False
      define next_line where "next_line = source_lines ! nat (line_index + 1)"
      define c where "c = continuation_line p first_line next_line"
      have idx: "py_index source_lines (line_index + 1) = Inr next_line"
        unfolding next_line_def using False "1.prems" by (intro py_index_nat) auto
      have nat_eq: "nat (line_index + 1) = nat line_index + 1"
        using "1.prems" by simp
      have drop_eq: "drop (Suc (nat line_index)) source_lines =
          next_line # drop (Suc (nat (line_index + 1))) source_lines"
        unfolding next_line_def using False "1.prems"
        by (simp add: nat_eq Cons_nth_drop_Suc)
      have IH: "signature_loop source_lines p first_line (line_index + 1) (signature_lines @ [c]) =
          Inr (if ends_with_colon (last (signature_lines @ [c])) then signature_lines @ [c]
               else (signature_lines @ [c]) @
                 take_through ends_with_colon
                   (map (continuation_line p first_line)
                      (drop (nat (line_index + 1) + 1) source_lines)))"
        unfolding c_def
        using no_colon False "1.prems"
        by (intro "1.IH" [OF last _ _ idx]) (auto simp: ends_with_colon_def)
      have step: "signature_loop source_lines p first_line line_index signature_lines =
          signature_loop source_lines p first_line (line_index + 1) (signature_lines @ [c])"
        using no_colon False
        by (subst signature_loop.simps) (simp add: last idx c_def ends_with_colon_def)
      show ?thesis
        unfolding step IH using no_colon by (simp add: drop_eq c_def)
    qed
  qed
qed


lemma take_through_none: "\<forall>x \<in> set xs. \<not> P x \<Longrightarrow> take_through P xs = xs"
  by (induction xs) auto

lemma take_through_first:
  "k < length xs \<Longrightarrow> P (xs ! k) \<Longrightarrow> \<forall>j < k. \<not> P (xs ! j) \<Longrightarrow>
     take_through P xs = take (Suc k) xs"
proof (induction xs arbitrary: k)
  case Nil
  then show ?case by simp
next
  case (Cons x xs)
  show ?case
  proof (cases k)
    case 0
    with Cons.prems show ?thesis by simp
  next
    case (Suc k')
    have "\<not> P x" using Cons.prems(3) Suc by auto
    moreover have "take_through P xs = take (Suc k') xs"
      using Cons.prems Suc by (intro Cons.IH) auto
    ultimately show ?thesis using Suc by simp
  qed
qed

lemma take_through_nonempty: "xs \<noteq> [] \<Longrightarrow> take_through P xs \<noteq> []"
  by (cases xs) auto

lemma hd_take_through: "xs \<noteq> [] \<Longrightarrow> hd (take_through P xs) = hd xs"
  by (cases xs) auto

lemma get_signature_lines_eq:
  assumes "1 \<le> lineno" "lineno \<le> int (length source_lines)"
  shows "get_signature_lines source_lines lineno p =
     Inr (first_line_of p (source_lines ! nat (lineno - 1)) #
          map (continuation_line p (first_line_of p (source_lines ! nat (lineno - 1))))
            (tl (header_lines source_lines (nat (lineno - 1)))))"
proof -
  define i where "i = nat (lineno - 1)"
  define first_line where "first_line = first_line_of p (source_lines ! i)"
  have i: "i < length source_lines" using assms by (auto simp: i_def)
  have idx: "py_index source_lines (lineno - 1) = Inr (source_lines ! i)"
    unfolding i_def using assms by (intro py_index_nat) auto
  have loop: "signature_loop source_lines p first_line (lineno - 1) [first_line] =
      Inr (if ends_with_colon (last [first_line]) then [first_line]
           else [first_line] @
             take_through ends_with_colon
               (map (continuation_line p first_line) (drop (nat (lineno - 1) + 1) source_lines)))"
    using assms by (intro signature_loop_unfold) auto
  have drop_i: "drop i source_lines = source_lines ! i # drop (Suc i) source_lines"
    using i by (simp add: Cons_nth_drop_Suc)
  have tl_header: "tl (header_lines source_lines i) =
      (if ends_with_colon (source_lines ! i) then []
       else take_through ends_with_colon (drop (Suc i) source_lines))"
    by (simp add: header_lines_def drop_i)
  have "get_signature_lines source_lines lineno p =
      signature_loop source_lines p first_line (lineno - 1) [first_line]"
    by (simp add: get_signature_lines_def Let_def idx first_line_def)
  also have "\<dots> = Inr (first_line #
      map (continuation_line p first_line) (tl (header_lines source_lines i)))"
    unfolding loop tl_header
    by (simp add: first_line_def ends_with_colon_first_line take_through_map
          ends_with_colon_continuation i_def)
  finally show ?thesis by (simp add: first_line_def i_def)
qed

lemma header_lines_first:
  assumes "i \<le> k" "k < length source_lines" "ends_with_colon (source_lines ! k)"
    "\<forall>j. i \<le> j \<and> j < k \<longrightarrow> \<not> ends_with_colon (source_lines ! j)"
  shows "header_lines source_lines i = take (Suc (k - i)) (drop i source_lines)"
  unfolding header_lines_def
  using assms by (intro take_through_first) auto

lemma header_lines_all:
  assumes "\<forall>j. i \<le> j \<and> j < length source_lines \<longrightarrow> \<not> ends_with_colon (source_lines ! j)"
  shows "header_lines source_lines i = drop i source_lines"
  unfolding header_lines_def
proof (rule take_through_none, rule ballI)
  fix x assume "x \<in> set (drop i source_lines)"
  then obtain j where "j < length (drop i source_lines)" "x = drop i source_lines ! j"
    by (auto simp: in_set_conv_nth)
  then show "\<not> ends_with_colon x" using assms by auto
qed

lemma find_from_eq:
  "0 \<le> i \<Longrightarrow> find_from i s c =
     (if c \<in> set s then i + int (length (takeWhile (\<lambda>x. x \<noteq> c) s)) else - 1)"
  by (induction s arbitrary: i) auto

lemma str_find_eq:
  "str_find s c = (if c \<in> set s then int (length (takeWhile (\<lambda>x. x \<noteq> c) s)) else - 1)"
  by (simp add: str_find_def find_from_eq)

lemma length_first_line_of: "p \<le> int (length (first_line_of p line))"
  by (simp add: first_line_of_def spaces_def)

lemma length_continuation_line: "p \<le> int (length (continuation_line p first_line line))"
  by (auto simp: continuation_line_def Let_def spaces_def str_find_eq)


lemma str_find_reindent:
  "0 \<le> n \<Longrightarrow> c \<noteq> CHR '' '' \<Longrightarrow> c \<in> set s \<Longrightarrow>
     str_find (spaces n @ s) c = n + str_find s c"
proof -
  assume n: "0 \<le> n" and c: "c \<noteq> CHR '' ''" "c \<in> set s"
  have "takeWhile (\<lambda>x. x \<noteq> c) (replicate (nat n) CHR '' '' @ s) =
      replicate (nat n) CHR '' '' @ takeWhile (\<lambda>x. x \<noteq> c) s"
    using c(1) by (intro takeWhile_append2) auto
  then show ?thesis
    using n c by (simp add: str_find_eq spaces_def)
qed

lemma signature_lines_of_header:
  assumes "1 \<le> lineno" and "lineno \<le> int (length source_lines)"
    and "nat (lineno - 1) + m < length source_lines"
    and "header_lines source_lines (nat (lineno - 1)) =
           take (Suc m) (drop (nat (lineno - 1)) source_lines)"
  shows "\<exists>lines.
      get_signature_lines source_lines lineno p = Inr lines
    \<and> get_signature source_lines lineno p = Inr (join NL lines)
    \<and> length lines = m + 1
    \<and> lines ! 0 = first_line_of p (source_lines ! nat (lineno - 1))
    \<and> (\<forall>j. 0 < j \<and> j \<le> m \<longrightarrow>
          lines ! j = continuation_line p (lines ! 0) (source_lines ! (nat (lineno - 1) + j)))
    \<and> (p \<le> 0 \<longrightarrow> lines = take (m + 1) (drop (nat (lineno - 1)) source_lines))
    \<and> (\<forall>line \<in> set lines. p \<le> int (length line))"
proof -
  define i where "i = nat (lineno - 1)"
  define first_line where "first_line = first_line_of p (source_lines ! i)"
  define raw where "raw = take (Suc m) (drop i source_lines)"
  define lines where "lines = first_line # map (continuation_line p first_line) (tl raw)"
  have header: "header_lines source_lines i = raw"
    unfolding raw_def i_def by (rule assms(4))
  have lines: "get_signature_lines source_lines lineno p = Inr lines"
    using get_signature_lines_eq [OF assms(1,2), of p]
    by (simp add: lines_def first_line_def header i_def [symmetric])
  have len_raw: "length raw = Suc m"
    using assms(3) by (auto simp: raw_def i_def)
  have raw_nth: "raw ! j = source_lines ! (i + j)" if "j \<le> m" for j
    using that assms(3) by (simp add: raw_def i_def)
  have len: "length lines = m + 1"
    by (simp add: lines_def len_raw)
  have cont: "lines ! j = continuation_line p (lines ! 0) (source_lines ! (i + j))"
    if pos: "0 < j" and le: "j \<le> m" for j
  proof -
    obtain j' where j': "j = Suc j'" using pos by (cases j) auto
    have "j' < length (tl raw)" using le j' by (simp add: len_raw)
    then have "lines ! j = continuation_line p first_line (tl raw ! j')"
      by (simp add: lines_def j')
    also have "tl raw ! j' = raw ! j"
      using le j' by (simp add: nth_tl len_raw)
    finally show ?thesis using le by (simp add: raw_nth lines_def)
  qed
  have verbatim: "lines = raw" if "p \<le> 0"
  proof -
    have "raw \<noteq> []" using len_raw by auto
    moreover have "hd raw = source_lines ! i"
      using raw_nth [of 0] len_raw by (cases raw) auto
    moreover have "map (continuation_line p first_line) (tl raw) = tl raw"
      using that by (intro map_idI) (simp add: continuation_line_def)
    ultimately show ?thesis
      using that by (cases raw) (auto simp: lines_def first_line_def first_line_of_def)
  qed
  have lengths: "\<forall>line \<in> set lines. p \<le> int (length line)"
    by (auto simp: lines_def first_line_def length_first_line_of length_continuation_line)
  have first: "lines ! 0 = first_line_of p (source_lines ! i)"
    by (simp add: lines_def first_line_def)
  have joined: "get_signature source_lines lineno p = Inr (join NL lines)"
    by (simp add: get_signature_def lines)
  have verbatim': "p \<le> 0 \<longrightarrow> lines = take (m + 1) (drop i source_lines)"
    using verbatim by (simp add: raw_def)
  show ?thesis
    unfolding i_def [symmetric]
    using lines joined len first cont verbatim' lengths
    by (intro exI [of _ lines]) blast
qed

text \<open>
  Claim C5. Let the declaration start at line \<open>lineno\<close> (counted from 1) and let \<open>k\<close> be
  the index of the first source line, from the starting line on, whose right-trimmed text
  ends with a colon. Then \<^verbatim>\<open>get_signature\<close> returns, joined by newlines, one line for each
  source line from the starting line up to and including line \<open>k\<close> and no more: the
  first is the starting line (re-indented when the base indentation is positive), the
  others are the following source lines in order (re-indented likewise), and with base
  indentation 0 the lines are the source lines unchanged. Every line returned is at least
  as long as the base indentation.
\<close>

theorem header_ends_at_first_colon_line:
  assumes "1 \<le> lineno" and "nat (lineno - 1) \<le> k" and "k < length source_lines"
    and "ends_with_colon (source_lines ! k)"
    and "\<forall>j. nat (lineno - 1) \<le> j \<and> j < k \<longrightarrow> \<not> ends_with_colon (source_lines ! j)"
  shows "\<exists>lines.
      get_signature_lines source_lines lineno p = Inr lines
    \<and> get_signature source_lines lineno p = Inr (join NL lines)
    \<and> length lines = k - nat (lineno - 1) + 1
    \<and> lines ! 0 = first_line_of p (source_lines ! nat (lineno - 1))
    \<and> (\<forall>j. 0 < j \<and> j \<le> k - nat (lineno - 1) \<longrightarrow>
          lines ! j = continuation_line p (lines ! 0) (source_lines ! (nat (lineno - 1) + j)))
    \<and> (p \<le> 0 \<longrightarrow>
          lines = take (k - nat (lineno - 1) + 1) (drop (nat (lineno - 1)) source_lines))
    \<and> (\<forall>line \<in> set lines. p \<le> int (length line))"
proof -
  have lineno: "lineno \<le> int (length source_lines)"
    using assms(1-3) by auto
  have inside: "nat (lineno - 1) + (k - nat (lineno - 1)) < length source_lines"
    using assms(2,3) by simp
  show ?thesis
    by (rule signature_lines_of_header
          [OF assms(1) lineno inside header_lines_first [OF assms(2-5)]])
qed

text \<open>
  Claim C7. When no source line from the starting line to the end of the file has a
  right-trimmed text that ends with a colon, \<^verbatim>\<open>get_signature\<close> raises nothing and reads
  nothing past the last line: it returns, joined by newlines, one line for each source
  line from the starting line to the last line of the file.
\<close>

theorem header_stops_at_end_of_file:
  assumes "1 \<le> lineno" and "lineno \<le> int (length source_lines)"
    and "\<forall>j. nat (lineno - 1) \<le> j \<and> j < length source_lines \<longrightarrow>
           \<not> ends_with_colon (source_lines ! j)"
  shows "\<exists>lines.
      get_signature_lines source_lines lineno p = Inr lines
    \<and> get_signature source_lines lineno p = Inr (join NL lines)
    \<and> length lines = length source_lines - nat (lineno - 1)
    \<and> lines ! 0 = first_line_of p (source_lines ! nat (lineno - 1))
    \<and> (\<forall>j. 0 < j \<and> j < length source_lines - nat (lineno - 1) \<longrightarrow>
          lines ! j = continuation_line p (lines ! 0) (source_lines ! (nat (lineno - 1) + j)))
    \<and> (p \<le> 0 \<longrightarrow> lines = drop (nat (lineno - 1)) source_lines)"
proof -
  define m where "m = length source_lines - nat (lineno - 1) - 1"
  have m: "nat (lineno - 1) + m < length source_lines"
    "Suc m = length source_lines - nat (lineno - 1)"
    using assms(1,2) by (auto simp: m_def)
  have header: "header_lines source_lines (nat (lineno - 1)) =
      take (Suc m) (drop (nat (lineno - 1)) source_lines)"
    using header_lines_all [OF assms(3)] m(2) by simp
  obtain lines where lines:
    "get_signature_lines source_lines lineno p = Inr lines"
    "get_signature source_lines lineno p = Inr (join NL lines)"
    "length lines = m + 1"
    "lines ! 0 = first_line_of p (source_lines ! nat (lineno - 1))"
    "\<forall>j. 0 < j \<and> j \<le> m \<longrightarrow>
       lines ! j = continuation_line p (lines ! 0) (source_lines ! (nat (lineno - 1) + j))"
    "p \<le> 0 \<longrightarrow> lines = take (m + 1) (drop (nat (lineno - 1)) source_lines)"
    using signature_lines_of_header [OF assms(1,2) m(1) header, of p] by blast
  have "\<forall>j. 0 < j \<and> j < length source_lines - nat (lineno - 1) \<longrightarrow>
      lines ! j = continuation_line p (lines ! 0) (source_lines ! (nat (lineno - 1) + j))"
    using lines(5) m(2) by auto
  moreover have "p \<le> 0 \<longrightarrow> lines = drop (nat (lineno - 1)) source_lines"
    using lines(6) m(2) by simp
  ultimately show ?thesis
    using lines(1-4) m(2) by (intro exI [of _ lines]) simp
qed


lemma take_through_is_take: "take_through P xs = take (length (take_through P xs)) xs"
  by (induction xs) auto

lemma length_take_through: "length (take_through P xs) \<le> length xs"
  by (induction xs) auto

lemma take_through_nth: "j < length (take_through P xs) \<Longrightarrow> take_through P xs ! j = xs ! j"
  by (subst take_through_is_take) simp

lemma curr_indent_reindent: "curr_indent (spaces n @ lstrip line) = nat n"
  by (simp add: curr_indent_def lstrip_reindent) (simp add: spaces_def)

lemma paren_in_reindent:
  "CHR ''('' \<in> set (spaces n @ lstrip line) \<longleftrightarrow> CHR ''('' \<in> set (lstrip line)"
  by (auto simp: spaces_def)

text \<open>
  Claim C2. With a positive base indentation \<open>p\<close>, the first line returned is \<open>p\<close> spaces
  followed by the starting line without its leading whitespace. Every later line returned
  is the corresponding source line without its leading whitespace, after a run of spaces:
  when the first line returned holds an opening parenthesis, as many spaces as the column
  of its first opening parenthesis plus one, which is \<open>p\<close> plus the offset of the
  parenthesis in the stripped first line plus one; otherwise \<open>p + 4\<close> spaces. The
  leading whitespace of such a line is exactly that run.
\<close>

theorem continuation_lines_aligned:
  assumes "0 < p" and "1 \<le> lineno" and "lineno \<le> int (length source_lines)"
    and "get_signature_lines source_lines lineno p = Inr lines"
    and "0 < j" and "j < length lines"
  shows "lines ! 0 = spaces p @ lstrip (source_lines ! nat (lineno - 1))
    \<and> (CHR ''('' \<in> set (lines ! 0) \<longrightarrow>
          lines ! j = spaces (p + str_find (lstrip (lines ! 0)) CHR ''('' + 1) @
                        lstrip (source_lines ! (nat (lineno - 1) + j))
        \<and> str_find (lines ! 0) CHR ''('' = p + str_find (lstrip (lines ! 0)) CHR ''(''
        \<and> curr_indent (lines ! j) = nat (str_find (lines ! 0) CHR ''('' + 1))
    \<and> (CHR ''('' \<notin> set (lines ! 0) \<longrightarrow>
          lines ! j = spaces (p + 4) @ lstrip (source_lines ! (nat (lineno - 1) + j))
        \<and> curr_indent (lines ! j) = nat (p + 4))"
proof -
  define i where "i = nat (lineno - 1)"
  define line0 where "line0 = source_lines ! i"
  define first_line where "first_line = spaces p @ lstrip line0"
  define header where "header = header_lines source_lines i"
  define raw where "raw = source_lines ! (i + j)"
  have first_line: "first_line_of p line0 = first_line"
    using assms(1) by (simp add: first_line_of_def first_line_def)
  have lines: "lines = first_line # map (continuation_line p first_line) (tl header)"
    using get_signature_lines_eq [OF assms(2,3), of p] assms(4)
    by (simp add: i_def [symmetric] line0_def [symmetric] first_line header_def)
  obtain j' where j': "j = Suc j'" using assms(5) by (cases j) auto
  have j'_tl: "j' < length (tl header)" using assms(6) by (simp add: lines j')
  then have j_header: "j < length header" by (simp add: j')
  have "tl header ! j' = header ! j"
    using j'_tl by (simp add: nth_tl j')
  also have "header ! j = drop i source_lines ! j"
    using j_header unfolding header_def header_lines_def by (rule take_through_nth)
  also have "\<dots> = raw"
  proof -
    have "i \<le> length source_lines" using assms(2,3) by (simp add: i_def)
    then show ?thesis by (simp add: raw_def)
  qed
  finally have nth_j: "lines ! j = continuation_line p first_line raw"
    using j'_tl by (simp add: lines j')
  have stripped: "lstrip first_line = lstrip line0"
    by (simp add: first_line_def lstrip_reindent)
  have in_first: "CHR ''('' \<in> set first_line \<longleftrightarrow> CHR ''('' \<in> set (lstrip line0)"
    by (simp only: first_line_def paren_in_reindent)
  have with_paren: "lines ! j = spaces (p + str_find (lstrip first_line) CHR ''('' + 1) @ lstrip raw
      \<and> str_find first_line CHR ''('' = p + str_find (lstrip first_line) CHR ''(''
      \<and> curr_indent (lines ! j) = nat (str_find first_line CHR ''('' + 1)"
    if paren: "CHR ''('' \<in> set first_line"
  proof -
    have found: "str_find (lstrip first_line) CHR ''('' \<noteq> - 1"
      using paren in_first by (simp add: stripped str_find_eq)
    have line_j: "lines ! j =
        spaces (p + str_find (lstrip first_line) CHR ''('' + 1) @ lstrip raw"
      using assms(1) found by (simp add: nth_j continuation_line_def Let_def)
    have column: "str_find first_line CHR ''('' = p + str_find (lstrip first_line) CHR ''(''"
      using assms(1) paren in_first
      by (simp add: stripped) (simp add: first_line_def str_find_reindent)
    show ?thesis
      using line_j column by (simp add: curr_indent_reindent)
  qed
  have without_paren: "lines ! j = spaces (p + 4) @ lstrip raw
      \<and> curr_indent (lines ! j) = nat (p + 4)"
    if no_paren: "CHR ''('' \<notin> set first_line"
  proof -
    have "str_find (lstrip first_line) CHR ''('' = - 1"
      using no_paren in_first by (simp add: stripped str_find_eq)
    then have "lines ! j = spaces (p + 4) @ lstrip raw"
      using assms(1) by (simp add: nth_j continuation_line_def Let_def)
    then show ?thesis by (simp add: curr_indent_reindent)
  qed
  have l0: "lines ! 0 = first_line" by (simp add: lines)
  have first_eq: "first_line = spaces p @ lstrip (source_lines ! nat (lineno - 1))"
    by (simp add: first_line_def line0_def i_def)
  have raw_eq: "source_lines ! (nat (lineno - 1) + j) = raw"
    by (simp add: raw_def i_def)
  show ?thesis
    unfolding l0 raw_eq using first_eq with_paren without_paren by blast
qed

theorem header_ends_at_first_colon_line_witness:
  "(1::int) \<le> 2
   \<and> nat (2 - 1) \<le> (2::nat)
   \<and> (2::nat) < length [''class A:'', ''  def f(self,'', ''      x):'', ''    pass'']
   \<and> ends_with_colon ([''class A:'', ''  def f(self,'', ''      x):'', ''    pass''] ! 2)
   \<and> \<not> ends_with_colon ([''class A:'', ''  def f(self,'', ''      x):'', ''    pass''] ! 1)
   \<and> get_signature [''class A:'', ''  def f(self,'', ''      x):'', ''    pass''] 2 4 =
       Inr ''    def f(self,\<newline>          x):''
   \<and> (\<exists>lines.
         get_signature_lines [''class A:'', ''  def f(self,'', ''      x):'', ''    pass''] 2 4 =
           Inr lines
       \<and> length lines = 2)"
proof -
  let ?sl = "[''class A:'', ''  def f(self,'', ''      x):'', ''    pass'']"
  have h1: "(1::int) \<le> 2" by simp
  have h2: "nat (2 - 1) \<le> (2::nat)" by simp
  have h3: "(2::nat) < length ?sl" by simp
  have h4: "ends_with_colon (?sl ! 2)" by code_simp
  have not1: "\<not> ends_with_colon (?sl ! 1)" by code_simp
  have h5: "\<forall>j. nat (2 - 1) \<le> j \<and> j < 2 \<longrightarrow> \<not> ends_with_colon (?sl ! j)"
  proof (intro allI impI)
    fix j :: nat
    assume "nat (2 - 1) \<le> j \<and> j < 2"
    then have "j = 1" by simp
    then show "\<not> ends_with_colon (?sl ! j)" using not1 by simp
  qed
  have result: "get_signature ?sl 2 4 = Inr ''    def f(self,\<newline>          x):''"
    by code_simp
  from header_ends_at_first_colon_line [OF h1 h2 h3 h4 h5, of 4]
  obtain lines where "get_signature_lines ?sl 2 4 = Inr lines"
    and "length lines = 2 - nat (2 - 1) + 1"
    by blast
  then have "\<exists>lines. get_signature_lines ?sl 2 4 = Inr lines \<and> length lines = 2"
    by auto
  then show ?thesis
    using h1 h2 h3 h4 not1 result by blast
qed

theorem header_stops_at_end_of_file_witness:
  "(1::int) \<le> 2
   \<and> (2::int) \<le> int (length [''x = 1'', ''def f(a,'', ''      b'', []])
   \<and> get_signature [''x = 1'', ''def f(a,'', ''      b'', []] 2 0 =
       Inr ''def f(a,\<newline>      b\<newline>''
   \<and> (\<exists>lines.
         get_signature_lines [''x = 1'', ''def f(a,'', ''      b'', []] 2 0 = Inr lines
       \<and> length lines = 3
       \<and> lines = drop 1 [''x = 1'', ''def f(a,'', ''      b'', []])"
proof -
  let ?sl = "[''x = 1'', ''def f(a,'', ''      b'', []]"
  have h1: "(1::int) \<le> 2" by simp
  have h2: "(2::int) \<le> int (length ?sl)" by simp
  have not1: "\<not> ends_with_colon (?sl ! 1)" by code_simp
  have not2: "\<not> ends_with_colon (?sl ! 2)" by code_simp
  have not3: "\<not> ends_with_colon (?sl ! 3)" by code_simp
  have h3: "\<forall>j. nat (2 - 1) \<le> j \<and> j < length ?sl \<longrightarrow> \<not> ends_with_colon (?sl ! j)"
  proof (intro allI impI)
    fix j :: nat
    assume "nat (2 - 1) \<le> j \<and> j < length ?sl"
    then have "j = 1 \<or> j = 2 \<or> j = 3" by auto
    then show "\<not> ends_with_colon (?sl ! j)" using not1 not2 not3 by auto
  qed
  have result: "get_signature ?sl 2 0 = Inr ''def f(a,\<newline>      b\<newline>''"
    by code_simp
  from header_stops_at_end_of_file [OF h1 h2 h3, of 0]
  obtain lines where "get_signature_lines ?sl 2 0 = Inr lines"
    and "length lines = length ?sl - nat (2 - 1)"
    and "(0::int) \<le> 0 \<longrightarrow> lines = drop (nat (2 - 1)) ?sl"
    by blast
  then have "\<exists>lines. get_signature_lines ?sl 2 0 = Inr lines \<and> length lines = 3
      \<and> lines = drop 1 ?sl"
    by auto
  then show ?thesis
    using h1 h2 result by blast
qed

theorem continuation_lines_aligned_witness:
  "(0::int) < 4
   \<and> get_signature_lines [''class A:'', ''  def f(self,'', ''      x):'', ''    pass''] 2 4 =
       Inr [''    def f(self,'', ''          x):'']
   \<and> CHR ''('' \<in> set ([''    def f(self,'', ''          x):''] ! 0)
   \<and> [''    def f(self,'', ''          x):''] ! 1 = spaces 10 @ ''x):''
   \<and> str_find ([''    def f(self,'', ''          x):''] ! 0) CHR ''('' = 9
   \<and> curr_indent ([''    def f(self,'', ''          x):''] ! 1) = 10"
proof -
  let ?sl = "[''class A:'', ''  def f(self,'', ''      x):'', ''    pass'']"
  let ?lines = "[''    def f(self,'', ''          x):'']"
  have h1: "(0::int) < 4" by simp
  have h2: "(1::int) \<le> 2" by simp
  have h3: "(2::int) \<le> int (length ?sl)" by simp
  have h4: "get_signature_lines ?sl 2 4 = Inr ?lines" by code_simp
  have h5: "(0::nat) < 1" by simp
  have h6: "(1::nat) < length ?lines" by simp
  have paren: "CHR ''('' \<in> set (?lines ! 0)" by simp
  have raw: "lstrip (?sl ! (nat (2 - 1) + 1)) = ''x):''" by code_simp
  have pos: "str_find (lstrip (?lines ! 0)) CHR ''('' = 5" by code_simp
  from continuation_lines_aligned [OF h1 h2 h3 h4 h5 h6] paren
  have "?lines ! 1 = spaces (4 + str_find (lstrip (?lines ! 0)) CHR ''('' + 1) @
          lstrip (?sl ! (nat (2 - 1) + 1))"
    and "str_find (?lines ! 0) CHR ''('' = 4 + str_find (lstrip (?lines ! 0)) CHR ''(''"
    and "curr_indent (?lines ! 1) = nat (str_find (?lines ! 0) CHR ''('' + 1)"
    by blast+
  then have "?lines ! 1 = spaces 10 @ ''x):''"
    and "str_find (?lines ! 0) CHR ''('' = 9"
    and "curr_indent (?lines ! 1) = 10"
    unfolding raw pos by simp_all
  then show ?thesis
    using h1 h4 paren by blast
qed

subsection \<open>Documentation normalisation\<close>

lemma lstrip_empty_iff: "lstrip s = [] \<longleftrightarrow> (\<forall>c \<in> set s. isspace c)"
  by (simp add: lstrip_def dropWhile_eq_Nil_conv)

lemma rstrip_empty_iff: "rstrip s = [] \<longleftrightarrow> (\<forall>c \<in> set s. isspace c)"
  by (simp add: rstrip_def dropWhile_eq_Nil_conv)

lemma empty_line_iff: "empty_line line \<longleftrightarrow> (\<forall>c \<in> set line. isspace c)"
proof -
  have "(\<forall>c \<in> set (lstrip line). isspace c) \<longleftrightarrow> lstrip line = []"
    unfolding lstrip_def
    by (metis dropWhile_eq_Nil_conv dropWhile_idem)
  then show ?thesis
    by (simp add: empty_line_def strip_def rstrip_empty_iff lstrip_empty_iff)
qed

lemma curr_indent_takeWhile: "curr_indent line = length (takeWhile isspace line)"
proof -
  have "length line = length (takeWhile isspace line) + length (dropWhile isspace line)"
    by (metis length_append takeWhile_dropWhile_id)
  then show ?thesis by (simp add: curr_indent_def lstrip_def)
qed

lemma min_indent_loop_eq:
  "min_indent_loop rest a =
     (if filter (\<lambda>line. \<not> empty_line line) rest = [] then a
      else min a (enat (Min (set (map curr_indent (filter (\<lambda>line. \<not> empty_line line) rest))))))"
proof (induction rest arbitrary: a)
  case Nil
  show ?case by simp
next
  case (Cons line rest)
  show ?case
  proof (cases "empty_line line")
    case True
    then show ?thesis by (simp add: Cons.IH) (simp add: empty_line_def)
  next
    case False
    then have step: "min_indent_loop (line # rest) a =
        min_indent_loop rest (min a (enat (curr_indent line)))"
      by (simp add: empty_line_def)
    show ?thesis
    proof (cases "filter (\<lambda>line. \<not> empty_line line) rest = []")
      case True
      moreover from False have "strip line \<noteq> []" by (simp add: empty_line_def)
      ultimately show ?thesis using False by (simp add: Cons.IH)
    next
      case nonempty: False
      then have "set (map curr_indent (filter (\<lambda>line. \<not> empty_line line) rest)) \<noteq> {}"
        by (auto simp: filter_empty_conv)
      then have "Min (insert (curr_indent line)
            (set (map curr_indent (filter (\<lambda>line. \<not> empty_line line) rest)))) =
          min (curr_indent line)
            (Min (set (map curr_indent (filter (\<lambda>line. \<not> empty_line line) rest))))"
        by (intro Min_insert) auto
      moreover from False have "strip line \<noteq> []" by (simp add: empty_line_def)
      ultimately show ?thesis
        using False nonempty
        by (simp add: Cons.IH min.assoc min_enat_simps del: set_map set_filter)
    qed
  qed
qed

lemma normalized_loop_eq:
  "normalized_loop m d rest normalized = normalized @ map (normalized_line m d) rest"
  by (induction rest arbitrary: normalized) (auto simp: normalized_line_def empty_line_def)

lemma normalize_docstring_eq:
  assumes "splitlines docstring = first # rest" and "rest \<noteq> []"
  shows "normalize_docstring docstring d =
     Inr (Some (join NL (first # map (normalized_line (min_indent_of rest) d) rest)))"
proof -
  have nonempty: "docstring \<noteq> []"
    using assms(1) by (auto simp: splitlines_def)
  have len: "length (splitlines docstring) \<noteq> 1"
    using assms by simp
  have idx: "py_index (splitlines docstring) 0 = Inr first"
    by (simp add: assms(1) py_index_def)
  have m: "(if min_indent_loop rest \<infinity> = \<infinity> then 0 else the_enat (min_indent_loop rest \<infinity>)) =
      min_indent_of rest"
    by (simp add: min_indent_loop_eq min_indent_of_def)
  have "normalize_docstring docstring d =
      Inr (Some (join NL (normalized_loop
        (if min_indent_loop rest \<infinity> = \<infinity> then 0 else the_enat (min_indent_loop rest \<infinity>))
        d rest [first])))"
    using nonempty len
    by (simp add: normalize_docstring_def Let_def idx split del: if_split) (simp add: assms(1))
  then show ?thesis
    by (simp only: m normalized_loop_eq) simp
qed


lemma empty_line_Nil [simp]: "empty_line []"
  by (simp add: empty_line_def strip_def rstrip_def lstrip_def)

lemma splitlines_from_break_free:
  "\<forall>x \<in> set cur. \<not> is_linebreak x \<Longrightarrow> l \<in> set (splitlines_from cur s) \<Longrightarrow>
     \<forall>x \<in> set l. \<not> is_linebreak x"
proof (induction cur s rule: splitlines_from.induct)
  case (1 cur)
  then show ?case by (auto split: if_splits)
next
  case (2 cur c cs)
  have empty: "\<forall>x \<in> set ([]::string). \<not> is_linebreak x" by simp
  show ?case
  proof (cases "is_linebreak c")
    case False
    then have "l \<in> set (splitlines_from (cur @ [c]) cs)"
      using "2.prems"(2) by simp
    moreover have "\<forall>x \<in> set (cur @ [c]). \<not> is_linebreak x"
      using False "2.prems"(1) by simp
    ultimately show ?thesis
      using False by (intro "2.IH"(3))
  next
    case True
    show ?thesis
    proof (cases cs)
      case Nil
      with True "2.prems" show ?thesis by simp
    next
      case (Cons c2 cs2)
      show ?thesis
      proof (cases "c = CHR 0x0D \<and> c2 = CHR 0x0A")
        case crlf: True
        then have "l = cur \<or> l \<in> set (splitlines_from [] cs2)"
          using True Cons "2.prems"(2) by simp
        then show ?thesis
          using "2.prems"(1) "2.IH"(1) [OF True Cons crlf empty] by blast
      next
        case other: False
        then have "l = cur \<or> l \<in> set (splitlines_from [] (c2 # cs2))"
          using True Cons "2.prems"(2) by auto
        then show ?thesis
          using "2.prems"(1) "2.IH"(2) [OF True Cons other empty] by blast
      qed
    qed
  qed
qed

lemma splitlines_break_free:
  "l \<in> set (splitlines s) \<Longrightarrow> c \<in> set l \<Longrightarrow> \<not> is_linebreak c"
  unfolding splitlines_def using splitlines_from_break_free [of "[]" l s] by simp

lemma splitlines_from_append_line:
  "\<forall>c \<in> set l. \<not> is_linebreak c \<Longrightarrow> splitlines_from cur (l @ rest) = splitlines_from (cur @ l) rest"
  by (induction l arbitrary: cur) auto

lemma splitlines_from_NL:
  "rest \<noteq> [] \<Longrightarrow> splitlines_from cur (NL @ rest) = cur # splitlines_from [] rest"
  by (cases rest) (auto simp: NL_def is_linebreak_def)

lemma join_NL_nonempty: "ls \<noteq> [] \<Longrightarrow> last ls \<noteq> [] \<Longrightarrow> join NL ls \<noteq> []"
  by (induction ls rule: induct_list012) auto

lemma splitlines_join:
  assumes "ls \<noteq> []" and "last ls \<noteq> []" and "\<forall>l \<in> set ls. \<forall>c \<in> set l. \<not> is_linebreak c"
  shows "splitlines (join NL ls) = ls"
  using assms unfolding splitlines_def
proof (induction ls rule: induct_list012)
  case 1
  then show ?case by simp
next
  case (2 x)
  then have "splitlines_from [] (x @ []) = splitlines_from ([] @ x) []"
    by (intro splitlines_from_append_line) simp
  with 2 show ?case by simp
next
  case (3 x y zs)
  have rest: "join NL (y # zs) \<noteq> []"
    using "3.prems" by (intro join_NL_nonempty) auto
  have "splitlines_from [] (x @ NL @ join NL (y # zs)) =
      splitlines_from ([] @ x) (NL @ join NL (y # zs))"
    using "3.prems" by (intro splitlines_from_append_line) simp
  also have "\<dots> = x # splitlines_from [] (join NL (y # zs))"
    using rest by (simp add: splitlines_from_NL)
  also have "splitlines_from [] (join NL (y # zs)) = y # zs"
    using "3.prems" by (intro "3.IH"(2)) auto
  finally show ?case by simp
qed

lemma takeWhile_isspace_reindent:
  assumes "\<not> empty_line line"
  shows "takeWhile isspace (spaces d @ drop m (takeWhile isspace line) @ dropWhile isspace line) =
     spaces d @ drop m (takeWhile isspace line)"
proof -
  have "dropWhile isspace line \<noteq> []"
    using assms by (auto simp: empty_line_iff dropWhile_eq_Nil_conv)
  then have "\<not> isspace (hd (dropWhile isspace line))"
    by (rule hd_dropWhile)
  then have stop: "takeWhile isspace (dropWhile isspace line) = []"
    using \<open>dropWhile isspace line \<noteq> []\<close> by (cases "dropWhile isspace line") auto
  have "takeWhile isspace ((spaces d @ drop m (takeWhile isspace line)) @ dropWhile isspace line) =
      (spaces d @ drop m (takeWhile isspace line)) @ takeWhile isspace (dropWhile isspace line)"
    by (intro takeWhile_append2) (auto simp: spaces_def dest: in_set_dropD set_takeWhileD)
  then show ?thesis by (simp add: stop)
qed

lemma drop_within_indent:
  "m \<le> curr_indent line \<Longrightarrow>
     drop m line = drop m (takeWhile isspace line) @ dropWhile isspace line"
proof -
  assume "m \<le> curr_indent line"
  then have m: "m - length (takeWhile isspace line) = 0"
    by (simp add: curr_indent_takeWhile)
  have "drop m line = drop m (takeWhile isspace line @ dropWhile isspace line)"
    by simp
  also have "\<dots> = drop m (takeWhile isspace line) @
      drop (m - length (takeWhile isspace line)) (dropWhile isspace line)"
    by (rule drop_append)
  finally show ?thesis by (simp only: m drop_0)
qed

lemma curr_indent_normalized_line:
  assumes "\<not> empty_line line" and "m \<le> curr_indent line"
  shows "curr_indent (normalized_line m d line) = nat d + (curr_indent line - m)"
    and "\<not> empty_line (normalized_line m d line)"
proof -
  have shape: "normalized_line m d line =
      spaces d @ drop m (takeWhile isspace line) @ dropWhile isspace line"
    using assms by (simp add: normalized_line_def drop_within_indent)
  show "curr_indent (normalized_line m d line) = nat d + (curr_indent line - m)"
    unfolding shape curr_indent_takeWhile takeWhile_isspace_reindent [OF assms(1)]
    by (simp add: spaces_def)
  have "dropWhile isspace line \<noteq> []"
    using assms(1) by (auto simp: empty_line_iff dropWhile_eq_Nil_conv)
  then have "\<not> isspace (hd (dropWhile isspace line))"
    and "hd (dropWhile isspace line) \<in> set (dropWhile isspace line)"
    by (simp_all add: hd_dropWhile)
  then show "\<not> empty_line (normalized_line m d line)"
    unfolding shape empty_line_iff by auto
qed

lemma min_indent_of_le:
  "line \<in> set rest \<Longrightarrow> \<not> empty_line line \<Longrightarrow> min_indent_of rest \<le> curr_indent line"
  by (auto simp: min_indent_of_def filter_empty_conv intro!: Min_le)

lemma min_indent_of_attained:
  assumes "line \<in> set rest" and "\<not> empty_line line"
  shows "\<exists>l \<in> set rest. \<not> empty_line l \<and> curr_indent l = min_indent_of rest"
proof -
  let ?S = "set (map curr_indent (filter (\<lambda>line. \<not> empty_line line) rest))"
  have "?S \<noteq> {}" using assms by auto
  then have "Min ?S \<in> ?S" by (intro Min_in) auto
  moreover have "min_indent_of rest = Min ?S"
    using assms by (auto simp: min_indent_of_def filter_empty_conv)
  ultimately show ?thesis by auto
qed

lemma min_indent_of_normalized:
  assumes "line \<in> set rest" and "\<not> empty_line line"
  shows "min_indent_of (map (normalized_line (min_indent_of rest) d) rest) = nat d"
proof -
  let ?m = "min_indent_of rest"
  let ?f = "normalized_line ?m d"
  let ?S = "set (map curr_indent (filter (\<lambda>line. \<not> empty_line line) (map ?f rest)))"
  have blank: "empty_line (?f l) \<longleftrightarrow> empty_line l" if "l \<in> set rest" for l
    using that curr_indent_normalized_line(2) [of l ?m d] min_indent_of_le [of l rest]
    by (auto simp: normalized_line_def)
  have indent: "curr_indent (?f l) = nat d + (curr_indent l - ?m)"
    if "l \<in> set rest" "\<not> empty_line l" for l
    using that by (intro curr_indent_normalized_line(1) min_indent_of_le)
  have S: "?S = (\<lambda>l. curr_indent (?f l)) ` {l \<in> set rest. \<not> empty_line l}"
    using blank by auto
  obtain l0 where l0: "l0 \<in> set rest" "\<not> empty_line l0" "curr_indent l0 = ?m"
    using min_indent_of_attained [OF assms] by blast
  have "nat d \<in> ?S"
    unfolding S using l0 indent [of l0] by force
  moreover have "nat d \<le> y" if "y \<in> ?S" for y
    using that unfolding S by (auto simp: indent)
  ultimately have "Min ?S = nat d"
    by (intro Min_eqI) auto
  moreover have "filter (\<lambda>line. \<not> empty_line line) (map ?f rest) \<noteq> []"
    using assms blank by (auto simp: filter_empty_conv)
  ultimately show ?thesis
    by (simp add: min_indent_of_def del: set_map set_filter)
qed

lemma normalized_line_twice:
  assumes "empty_line line \<or> m \<le> curr_indent line"
  shows "normalized_line (nat d) d (normalized_line m d line) = normalized_line m d line"
proof (cases "empty_line line")
  case True
  then show ?thesis by (simp add: normalized_line_def)
next
  case False
  with assms have m: "m \<le> curr_indent line" by simp
  have "\<not> empty_line (normalized_line m d line)"
    using False m by (rule curr_indent_normalized_line(2))
  moreover have "normalized_line m d line = spaces d @ drop m line"
    using False by (simp add: normalized_line_def)
  ultimately show ?thesis
    by (simp add: normalized_line_def) (simp add: spaces_def)
qed

lemma normalized_line_break_free:
  "\<forall>c \<in> set line. \<not> is_linebreak c \<Longrightarrow> c \<in> set (normalized_line m d line) \<Longrightarrow> \<not> is_linebreak c"
proof -
  assume line: "\<forall>c \<in> set line. \<not> is_linebreak c" and c: "c \<in> set (normalized_line m d line)"
  have "\<not> is_linebreak CHR '' ''" by (simp add: is_linebreak_def)
  moreover from c have "c = CHR '' '' \<or> c \<in> set (drop m line)"
    by (auto simp: normalized_line_def spaces_def split: if_splits)
  ultimately show ?thesis
    using line by (auto dest: in_set_dropD)
qed

lemma normalized_line_nonempty:
  assumes "\<not> empty_line line" and "m \<le> curr_indent line"
  shows "normalized_line m d line \<noteq> []"
  using curr_indent_normalized_line(2) [OF assms, of d] by auto

lemma normalize_docstring_twice:
  assumes "splitlines docstring = first # rest" and "rest \<noteq> []"
    and "\<not> empty_line (last rest)"
  shows "\<exists>out. normalize_docstring docstring d = Inr (Some out)
    \<and> normalize_docstring out d = Inr (Some out)"
proof -
  let ?m = "min_indent_of rest"
  let ?f = "normalized_line ?m d"
  let ?ls = "first # map ?f rest"
  let ?out = "join NL ?ls"
  have last_in: "last rest \<in> set rest" using assms(2) by simp
  have first_pass: "normalize_docstring docstring d = Inr (Some ?out)"
    using assms(1,2) by (rule normalize_docstring_eq)
  have last_ne: "last ?ls \<noteq> []"
    using assms(2,3) last_in
    by (simp add: last_map normalized_line_nonempty min_indent_of_le)
  have free: "\<forall>l \<in> set ?ls. \<forall>c \<in> set l. \<not> is_linebreak c"
  proof (intro ballI)
    fix l c assume l: "l \<in> set ?ls" and c: "c \<in> set l"
    have source: "\<forall>c \<in> set l'. \<not> is_linebreak c" if "l' \<in> set (first # rest)" for l'
      using that splitlines_break_free [of l' docstring] by (auto simp: assms(1))
    from l consider "l = first" | l' where "l' \<in> set rest" "l = ?f l'" by auto
    then show "\<not> is_linebreak c"
    proof cases
      case 1
      then show ?thesis using source [of first] c by simp
    next
      case 2
      then show ?thesis
        using source [of l'] c normalized_line_break_free [of l' c ?m d] by simp
    qed
  qed
  have lines_out: "splitlines ?out = first # map ?f rest"
    using last_ne free by (intro splitlines_join) auto
  have "normalize_docstring ?out d =
      Inr (Some (join NL (first #
        map (normalized_line (min_indent_of (map ?f rest)) d) (map ?f rest))))"
    using lines_out assms(2) by (intro normalize_docstring_eq) auto
  also have "min_indent_of (map ?f rest) = nat d"
    using last_in assms(3) by (rule min_indent_of_normalized)
  also have "map (normalized_line (nat d) d) (map ?f rest) = map ?f rest"
    by (auto intro!: normalized_line_twice min_indent_of_le)
  finally show ?thesis
    using first_pass by blast
qed

lemma normalize_docstring_two_lines:
  assumes "splitlines docstring = [first, line]" and "empty_line line"
  shows "normalize_docstring docstring d = Inr (Some (first @ NL))"
    and "normalize_docstring (first @ NL) d = Inr (Some (first @ NL))"
proof -
  show "normalize_docstring docstring d = Inr (Some (first @ NL))"
    using normalize_docstring_eq [of docstring first "[line]" d] assms
    by (simp add: normalized_line_def)
  have "first \<in> set (splitlines docstring)" by (simp add: assms(1))
  then have "\<forall>c \<in> set first. \<not> is_linebreak c"
    using splitlines_break_free by blast
  then have "splitlines_from [] (first @ NL) = splitlines_from ([] @ first) NL"
    by (rule splitlines_from_append_line)
  then have "splitlines (first @ NL) = [first]"
    by (simp add: splitlines_def NL_def is_linebreak_def)
  then show "normalize_docstring (first @ NL) d = Inr (Some (first @ NL))"
    by (simp add: normalize_docstring_def NL_def)
qed

text \<open>
  Claim C6. For a documentation string of two lines or more and a target indentation
  \<open>d\<close>, \<^verbatim>\<open>normalize_docstring\<close> returns the lines joined by newlines, where the first
  line is kept as it is, each later line that is not empty becomes \<open>d\<close> spaces followed by
  the line without its first \<open>m\<close> characters, and each later empty line becomes the empty
  string. \<open>m\<close> is the least leading-whitespace width among the later lines that are not
  empty, and 0 when all of them are empty. As in the comments of the source, a line is
  empty when the test \<^verbatim>\<open>line.strip()\<close> fails, that is when it holds nothing but whitespace;
  the leading-whitespace width of a line is the length of its longest prefix of whitespace.
\<close>

theorem normalize_docstring_multi_line:
  assumes "splitlines docstring = first # rest" and "rest \<noteq> []"
  shows "normalize_docstring docstring d =
      Inr (Some (join NL (first #
        map (\<lambda>line. if empty_line line then [] else spaces d @ drop (min_indent_of rest) line)
          rest)))
    \<and> min_indent_of rest =
        (if list_all empty_line rest then 0
         else Min (set (map curr_indent (filter (\<lambda>line. \<not> empty_line line) rest))))
    \<and> list_all (\<lambda>line. empty_line line = list_all isspace line
          \<and> curr_indent line = length (takeWhile isspace line)) rest"
proof -
  have "normalized_line (min_indent_of rest) d =
      (\<lambda>line. if empty_line line then [] else spaces d @ drop (min_indent_of rest) line)"
    by (auto simp: normalized_line_def)
  then have "normalize_docstring docstring d =
      Inr (Some (join NL (first #
        map (\<lambda>line. if empty_line line then [] else spaces d @ drop (min_indent_of rest) line)
          rest)))"
    using normalize_docstring_eq [OF assms, of d] by simp
  moreover have "list_all empty_line rest \<longleftrightarrow> filter (\<lambda>line. \<not> empty_line line) rest = []"
    by (auto simp: list_all_iff filter_empty_conv)
  then have "min_indent_of rest =
      (if list_all empty_line rest then 0
       else Min (set (map curr_indent (filter (\<lambda>line. \<not> empty_line line) rest))))"
    by (simp add: min_indent_of_def)
  moreover have "list_all (\<lambda>line. empty_line line = list_all isspace line
      \<and> curr_indent line = length (takeWhile isspace line)) rest"
    by (simp add: list_all_iff empty_line_iff curr_indent_takeWhile)
  ultimately show ?thesis by blast
qed

theorem normalize_docstring_multi_line_witness:
  "splitlines ''Summary.\<newline>\<newline>    Args:\<newline>      x: int'' =
      ''Summary.'' # [[], ''    Args:'', ''      x: int'']
   \<and> min_indent_of [[], ''    Args:'', ''      x: int''] = 4
   \<and> normalize_docstring ''Summary.\<newline>\<newline>    Args:\<newline>      x: int'' 8 =
      Inr (Some ''Summary.\<newline>\<newline>        Args:\<newline>          x: int'')"
proof -
  let ?doc = "''Summary.\<newline>\<newline>    Args:\<newline>      x: int''"
  let ?rest = "[[], ''    Args:'', ''      x: int'']"
  have h1: "splitlines ?doc = ''Summary.'' # ?rest" by code_simp
  have h2: "?rest \<noteq> []" by simp
  have m: "min_indent_of ?rest = 4" by code_simp
  have joined: "join NL (''Summary.'' #
      map (\<lambda>line. if empty_line line then [] else spaces 8 @ drop (min_indent_of ?rest) line)
        ?rest) = ''Summary.\<newline>\<newline>        Args:\<newline>          x: int''"
    unfolding m by code_simp
  from normalize_docstring_multi_line [OF h1 h2, of 8]
  have "normalize_docstring ?doc 8 =
      Inr (Some (join NL (''Summary.'' #
        map (\<lambda>line. if empty_line line then [] else spaces 8 @ drop (min_indent_of ?rest) line)
          ?rest)))"
    by (rule conjunct1)
  then have "normalize_docstring ?doc 8 =
      Inr (Some ''Summary.\<newline>\<newline>        Args:\<newline>          x: int'')"
    by (simp only: joined)
  with h1 m show ?thesis
    by (intro conjI)
qed

text \<open>
  Claim C4, as amended. For a documentation string of two lines or more whose last line
  is not empty, or which has exactly two lines, \<^verbatim>\<open>normalize_docstring\<close> returns a string
  that a second pass at the same target indentation returns unchanged.
\<close>

theorem normalize_docstring_idempotent:
  assumes "splitlines docstring = first # rest" and "rest \<noteq> []"
    and "\<not> empty_line (last rest) \<or> length rest = 1"
  shows "\<exists>out. normalize_docstring docstring d = Inr (Some out)
    \<and> normalize_docstring out d = Inr (Some out)"
proof (cases "empty_line (last rest)")
  case False
  show ?thesis
    by (rule normalize_docstring_twice [OF assms(1,2) False])
next
  case True
  with assms(3) have "length rest = 1" by blast
  then obtain line where rest: "rest = [line]"
    by (cases rest) simp_all
  have lines: "splitlines docstring = [first, line]"
    by (simp only: assms(1) rest)
  have blank: "empty_line line"
    using True unfolding rest by simp
  show ?thesis
    using normalize_docstring_two_lines [OF lines blank, of d] by blast
qed

theorem normalize_docstring_idempotent_witness:
  "splitlines ''Summary.\<newline>\<newline>    Args:\<newline>      x: int'' =
      ''Summary.'' # [[], ''    Args:'', ''      x: int'']
   \<and> \<not> empty_line (last [[], ''    Args:'', ''      x: int''])
   \<and> normalize_docstring ''Summary.\<newline>\<newline>    Args:\<newline>      x: int'' 8 =
      Inr (Some ''Summary.\<newline>\<newline>        Args:\<newline>          x: int'')
   \<and> normalize_docstring ''Summary.\<newline>\<newline>        Args:\<newline>          x: int'' 8 =
      Inr (Some ''Summary.\<newline>\<newline>        Args:\<newline>          x: int'')"
proof -
  let ?doc = "''Summary.\<newline>\<newline>    Args:\<newline>      x: int''"
  let ?out = "''Summary.\<newline>\<newline>        Args:\<newline>          x: int''"
  let ?rest = "[[], ''    Args:'', ''      x: int'']"
  have h1: "splitlines ?doc = ''Summary.'' # ?rest" by code_simp
  have h2: "?rest \<noteq> []" by simp
  have last: "\<not> empty_line (last ?rest)" by code_simp
  then have h3: "\<not> empty_line (last ?rest) \<or> length ?rest = 1" by simp
  have first_pass: "normalize_docstring ?doc 8 = Inr (Some ?out)" by code_simp
  from normalize_docstring_idempotent [OF h1 h2 h3, of 8]
  obtain out where "normalize_docstring ?doc 8 = Inr (Some out)"
    and "normalize_docstring out 8 = Inr (Some out)"
    by blast
  note passes = this
  from passes(1) first_pass have "out = ?out"
    by (simp only: sum.inject option.inject)
  with passes(2) have "normalize_docstring ?out 8 = Inr (Some ?out)"
    by (simp only:)
  with h1 last first_pass show ?thesis
    by (intro conjI)
qed

text \<open>
  The claim as stated covers every documentation string of two lines or more. When the
  last of three or more lines is empty, the first pass ends its output with a newline,
  which \<^verbatim>\<open>splitlines\<close> does not count as a line of its own, and the second pass returns
  a shorter string. \<^verbatim>\<open>ast.get_docstring\<close> gives such a string for a documentation string
  whose closing quotes are indented deeper than its text.
\<close>

theorem second_pass_drops_trailing_newline:
  "normalize_docstring ''a\<newline>b\<newline>    '' 4 = Inr (Some ''a\<newline>    b\<newline>'')
   \<and> normalize_docstring ''a\<newline>    b\<newline>'' 4 = Inr (Some ''a\<newline>    b'')
   \<and> normalize_docstring ''a\<newline>    b\<newline>'' 4 \<noteq> Inr (Some ''a\<newline>    b\<newline>'')"
  by code_simp

subsection \<open>Indentation of the rendered blocks\<close>

lemma splitlines_from_nonempty: "s \<noteq> [] \<or> cur \<noteq> [] \<Longrightarrow> splitlines_from cur s \<noteq> []"
proof (induction s arbitrary: cur)
  case Nil
  then show ?case by simp
next
  case (Cons c cs)
  show ?case
  proof (cases "is_linebreak c")
    case True
    then show ?thesis by (cases cs) auto
  next
    case False
    then show ?thesis using Cons.IH [of "cur @ [c]"] by simp
  qed
qed

lemma normalize_docstring_total:
  assumes "docstring \<noteq> []"
  shows "\<exists>normalized. normalize_docstring docstring d = Inr (Some normalized)"
proof -
  have "splitlines docstring \<noteq> []"
    using assms by (simp add: splitlines_def splitlines_from_nonempty)
  then obtain first rest where lines: "splitlines docstring = first # rest"
    by (cases "splitlines docstring") auto
  show ?thesis
  proof (cases "rest = []")
    case True
    with lines assms show ?thesis by (simp add: normalize_docstring_def)
  next
    case False
    with lines show ?thesis using normalize_docstring_eq [of docstring first rest d] by blast
  qed
qed

lemma get_signature_lines_top_level:
  assumes "1 \<le> lineno" and "lineno \<le> int (length source_lines)"
  shows "get_signature_lines source_lines lineno 0 =
     Inr (header_lines source_lines (nat (lineno - 1)))"
proof -
  let ?i = "nat (lineno - 1)"
  have "?i < length source_lines" using assms by auto
  then have "drop ?i source_lines = source_lines ! ?i # drop (Suc ?i) source_lines"
    by (simp add: Cons_nth_drop_Suc)
  then have header: "header_lines source_lines ?i =
      source_lines ! ?i # tl (header_lines source_lines ?i)"
    by (simp add: header_lines_def)
  have "map (continuation_line 0 (source_lines ! ?i)) (tl (header_lines source_lines ?i)) =
      tl (header_lines source_lines ?i)"
    by (intro map_idI) (simp add: continuation_line_def)
  then have "get_signature_lines source_lines lineno 0 =
      Inr (source_lines ! ?i # tl (header_lines source_lines ?i))"
    using get_signature_lines_eq [OF assms, of 0] by (simp add: first_line_of_def)
  with header show ?thesis by simp
qed

lemma not_isspace_quote: "\<not> isspace (CHR 0x22)"
  by (simp add: isspace_def)

lemma curr_indent_wrapper:
  "curr_indent (replicate n CHR '' '' @ triple_quote @ rest) = n"
proof -
  have "takeWhile isspace (replicate n CHR '' '' @ triple_quote @ rest) =
      replicate n CHR '' '' @ takeWhile isspace (triple_quote @ rest)"
    by (intro takeWhile_append2) simp
  then show ?thesis
    by (simp add: curr_indent_takeWhile triple_quote_def not_isspace_quote)
qed

lemma four_spaces: "''    '' = replicate 4 CHR '' ''"
  by (simp add: numeral_eq_Suc)

lemma eight_spaces: "''        '' = replicate 8 CHR '' ''"
  by (simp add: numeral_eq_Suc)

lemma join_append:
  "a \<noteq> [] \<Longrightarrow> b \<noteq> [] \<Longrightarrow> join sep (a @ b) = join sep a @ sep @ join sep b"
proof (induction a rule: induct_list012)
  case 1
  then show ?case by simp
next
  case (2 x)
  then show ?case by (cases b) auto
next
  case (3 x y zs)
  then show ?case by simp
qed

lemma join_Cons: "ls \<noteq> [] \<Longrightarrow> join sep (x # ls) = x @ sep @ join sep ls"
  by (cases ls) auto

lemma close_last_nonempty: "close_last ls q \<noteq> []"
  by (induction ls rule: induct_list012) auto

lemma join_close_last: "ls \<noteq> [] \<Longrightarrow> join sep (close_last ls q) = join sep ls @ q"
  by (induction ls rule: induct_list012) (auto simp: join_Cons close_last_nonempty)

lemma join_prefix_first: "join sep ((p @ x) # xs) = p @ join sep (x # xs)"
  by (cases xs) auto

lemma join_rendered_doc_lines:
  assumes "docstring \<noteq> []" and "normalize_docstring docstring (int depth) = Inr (Some doc)"
  shows "join NL (rendered_doc_lines depth docstring) =
     replicate depth CHR '' '' @ triple_quote @ doc @ triple_quote"
proof -
  have "splitlines docstring \<noteq> []"
    using assms(1) by (simp add: splitlines_def splitlines_from_nonempty)
  then obtain first rest where lines: "splitlines docstring = first # rest"
    by (cases "splitlines docstring") auto
  show ?thesis
  proof (cases "rest = []")
    case True
    then have "normalize_docstring docstring (int depth) = Inr (Some docstring)"
      using lines assms(1) by (simp add: normalize_docstring_def)
    with assms(2) have "doc = docstring" by simp
    with True lines show ?thesis by (simp add: rendered_doc_lines_def)
  next
    case False
    let ?ns = "map (normalized_line (min_indent_of rest) (int depth)) rest"
    have "normalize_docstring docstring (int depth) = Inr (Some (join NL (first # ?ns)))"
      using lines False by (rule normalize_docstring_eq)
    with assms(2) have doc: "doc = join NL (first # ?ns)" by simp
    have "join NL (rendered_doc_lines depth docstring) =
        join NL ((replicate depth CHR '' '' @ triple_quote @ first) # ?ns) @ triple_quote"
      using lines False by (simp add: rendered_doc_lines_def join_close_last)
    also have "join NL ((replicate depth CHR '' '' @ triple_quote @ first) # ?ns) =
        (replicate depth CHR '' '' @ triple_quote) @ join NL (first # ?ns)"
      using join_prefix_first [of NL "replicate depth CHR '' '' @ triple_quote" first ?ns]
      by simp
    finally show ?thesis by (simp add: doc)
  qed
qed

lemma rendered_doc_lines_nonempty: "rendered_doc_lines depth docstring \<noteq> []"
  by (simp add: rendered_doc_lines_def close_last_nonempty split: list.splits)

lemma hd_rendered_doc_lines:
  "\<exists>rest. hd (rendered_doc_lines depth docstring) =
     replicate depth CHR '' '' @ triple_quote @ rest"
proof (cases "splitlines docstring")
  case Nil
  then show ?thesis by (simp add: rendered_doc_lines_def)
next
  case (Cons first rest)
  show ?thesis
  proof (cases rest)
    case Nil
    with Cons show ?thesis by (simp add: rendered_doc_lines_def)
  next
    case (Cons line more)
    with \<open>splitlines docstring = first # rest\<close> show ?thesis
      by (simp add: rendered_doc_lines_def)
  qed
qed

lemma entry_with_doc_lines:
  assumes "lines \<noteq> []" and "docstring \<noteq> []"
    and "normalize_docstring docstring (int depth) = Inr (Some doc)"
  shows "join NL lines @ NL @ replicate depth CHR '' '' @ triple_quote @ doc @ triple_quote =
     join NL (lines @ rendered_doc_lines depth docstring)"
  using join_append [OF assms(1) rendered_doc_lines_nonempty, of NL depth docstring]
    join_rendered_doc_lines [OF assms(2,3)]
  by simp


lemma curr_indent_suffix:
  assumes "\<not> empty_line line"
  shows "curr_indent (line @ suffix) = curr_indent line"
proof -
  obtain x where x: "x \<in> set line" "\<not> isspace x"
    using assms by (auto simp: empty_line_iff)
  then have "takeWhile isspace (line @ suffix) = takeWhile isspace line"
    by (rule takeWhile_append1)
  then show ?thesis by (simp add: curr_indent_takeWhile)
qed

lemma header_lines_nonempty: "i < length source_lines \<Longrightarrow> header_lines source_lines i \<noteq> []"
  by (simp add: header_lines_def take_through_nonempty)

text \<open>
  Claim C3, as amended. A declaration starts at a line of the source. Rendered as a
  top-level function or class, its header is the source lines of the header unchanged, so
  with the indentation they have in the source (none for a declaration at column 0).
  Rendered as a method, the first line of its header is the source line with its leading
  whitespace replaced by exactly 4 spaces. The documentation follows the header as the
  lines \<^const>\<open>rendered_doc_lines\<close>, at depth 4 for a top-level declaration and at depth 8
  for a method. The first of these lines is exactly that many spaces, the opening quotes
  and the first line of the documentation. Of the later lines of a documentation of two
  lines or more, one that is empty is rendered as the empty string (depth 0), and one that
  is not empty is rendered after the depth plus the indentation it has beyond the
  least-indented of them: never less than the depth, and exactly the depth for the
  least-indented. The closing quotes end the last line. There is no third level: the two
  loops of the orchestrator render with these two depths only.
\<close>

theorem rendered_indentation_depths:
  assumes "1 \<le> lineno" and "lineno \<le> int (length source_lines)"
  shows "(\<exists>top method_lines.
      get_signature_lines source_lines lineno 0 = Inr top
    \<and> top = header_lines source_lines (nat (lineno - 1))
    \<and> top ! 0 = source_lines ! nat (lineno - 1)
    \<and> get_signature_lines source_lines lineno 4 = Inr method_lines
    \<and> method_lines ! 0 = ''    '' @ lstrip (source_lines ! nat (lineno - 1))
    \<and> curr_indent (method_lines ! 0) = 4
    \<and> function_entry source_lines lineno None = Inr (join NL top)
    \<and> class_entry source_lines lineno None = Inr (join NL top)
    \<and> method_entry source_lines lineno None = Inr (join NL method_lines)
    \<and> (docstring \<noteq> [] \<longrightarrow>
          function_entry source_lines lineno (Some docstring) =
            Inr (join NL (top @ rendered_doc_lines 4 docstring))
        \<and> class_entry source_lines lineno (Some docstring) =
            Inr (join NL (top @ rendered_doc_lines 4 docstring))
        \<and> method_entry source_lines lineno (Some docstring) =
            Inr (join NL (method_lines @ rendered_doc_lines 8 docstring))))
    \<and> curr_indent (hd (rendered_doc_lines depth docstring)) = depth
    \<and> (\<forall>first rest. splitlines docstring = first # rest \<longrightarrow>
         (rest = [] \<longrightarrow>
            rendered_doc_lines depth docstring =
              [replicate depth CHR '' '' @ triple_quote @ docstring @ triple_quote])
       \<and> (rest \<noteq> [] \<longrightarrow>
            rendered_doc_lines depth docstring =
              close_last
                ((replicate depth CHR '' '' @ triple_quote @ first) #
                   map (normalized_line (min_indent_of rest) (int depth)) rest)
                triple_quote
          \<and> (\<forall>line \<in> set rest.
               (empty_line line \<longrightarrow>
                  normalized_line (min_indent_of rest) (int depth) line = [])
             \<and> (\<not> empty_line line \<longrightarrow>
                  normalized_line (min_indent_of rest) (int depth) line =
                    replicate depth CHR '' '' @ drop (min_indent_of rest) line
                \<and> min_indent_of rest \<le> curr_indent line
                \<and> curr_indent (normalized_line (min_indent_of rest) (int depth) line @ suffix) =
                    depth + (curr_indent line - min_indent_of rest)))
          \<and> ((\<exists>line \<in> set rest. \<not> empty_line line) \<longrightarrow>
               (\<exists>line \<in> set rest. \<not> empty_line line
                  \<and> curr_indent (normalized_line (min_indent_of rest) (int depth) line @ suffix) =
                      depth))))"
proof -
  let ?i = "nat (lineno - 1)"
  define top where "top = header_lines source_lines ?i"
  define first_line where "first_line = first_line_of 4 (source_lines ! ?i)"
  define method_lines where "method_lines =
    first_line # map (continuation_line 4 first_line) (tl (header_lines source_lines ?i))"
  have i: "?i < length source_lines" using assms by auto
  have top: "get_signature_lines source_lines lineno 0 = Inr top"
    unfolding top_def by (rule get_signature_lines_top_level [OF assms])
  have top_ne: "top \<noteq> []"
    unfolding top_def using i by (rule header_lines_nonempty)
  have method_ne: "method_lines \<noteq> []"
    by (simp add: method_lines_def)
  have "drop ?i source_lines = source_lines ! ?i # drop (Suc ?i) source_lines"
    using i by (simp add: Cons_nth_drop_Suc)
  then have top0: "top ! 0 = source_lines ! ?i"
    by (simp add: top_def header_lines_def)
  have method_lines: "get_signature_lines source_lines lineno 4 = Inr method_lines"
    unfolding method_lines_def first_line_def by (rule get_signature_lines_eq [OF assms])
  have method_first: "method_lines ! 0 = ''    '' @ lstrip (source_lines ! ?i)"
    by (simp add: method_lines_def first_line_def first_line_of_def spaces_def numeral_eq_Suc)
  have indent: "curr_indent (method_lines ! 0) = 4"
    using curr_indent_reindent [of 4 "source_lines ! ?i"]
    by (simp add: method_lines_def first_line_def first_line_of_def)
  have sig0: "get_signature source_lines lineno 0 = Inr (join NL top)"
    and sig4: "get_signature source_lines lineno 4 = Inr (join NL method_lines)"
    by (simp_all add: get_signature_def top method_lines)
  have none: "function_entry source_lines lineno None = Inr (join NL top)"
    "class_entry source_lines lineno None = Inr (join NL top)"
    "method_entry source_lines lineno None = Inr (join NL method_lines)"
    by (simp_all add: function_entry_def class_entry_def method_entry_def sig0 sig4)
  have docs: "function_entry source_lines lineno (Some docstring) =
        Inr (join NL (top @ rendered_doc_lines 4 docstring))
      \<and> class_entry source_lines lineno (Some docstring) =
        Inr (join NL (top @ rendered_doc_lines 4 docstring))
      \<and> method_entry source_lines lineno (Some docstring) =
        Inr (join NL (method_lines @ rendered_doc_lines 8 docstring))"
    if nonempty: "docstring \<noteq> []"
  proof -
    obtain doc4 where doc4: "normalize_docstring docstring (int 4) = Inr (Some doc4)"
      using normalize_docstring_total [OF nonempty] by blast
    obtain doc8 where doc8: "normalize_docstring docstring (int 8) = Inr (Some doc8)"
      using normalize_docstring_total [OF nonempty] by blast
    have r4: "join NL top @ NL @ ''    '' @ triple_quote @ doc4 @ triple_quote =
        join NL (top @ rendered_doc_lines 4 docstring)"
      unfolding four_spaces by (rule entry_with_doc_lines [OF top_ne nonempty doc4])
    have r8: "join NL method_lines @ NL @ ''        '' @ triple_quote @ doc8 @ triple_quote =
        join NL (method_lines @ rendered_doc_lines 8 docstring)"
      unfolding eight_spaces by (rule entry_with_doc_lines [OF method_ne nonempty doc8])
    have "function_entry source_lines lineno (Some docstring) =
        Inr (join NL top @ NL @ ''    '' @ triple_quote @ doc4 @ triple_quote)"
      using nonempty doc4 by (simp add: function_entry_def sig0)
    moreover have "class_entry source_lines lineno (Some docstring) =
        Inr (join NL top @ NL @ ''    '' @ triple_quote @ doc4 @ triple_quote)"
      using nonempty doc4 by (simp add: class_entry_def sig0)
    moreover have "method_entry source_lines lineno (Some docstring) =
        Inr (join NL method_lines @ NL @ ''        '' @ triple_quote @ doc8 @ triple_quote)"
      using nonempty doc8 by (simp add: method_entry_def sig4)
    ultimately show ?thesis
      by (simp only: r4 r8)
  qed
  have part1: "\<exists>top method_lines.
      get_signature_lines source_lines lineno 0 = Inr top
    \<and> top = header_lines source_lines (nat (lineno - 1))
    \<and> top ! 0 = source_lines ! nat (lineno - 1)
    \<and> get_signature_lines source_lines lineno 4 = Inr method_lines
    \<and> method_lines ! 0 = ''    '' @ lstrip (source_lines ! nat (lineno - 1))
    \<and> curr_indent (method_lines ! 0) = 4
    \<and> function_entry source_lines lineno None = Inr (join NL top)
    \<and> class_entry source_lines lineno None = Inr (join NL top)
    \<and> method_entry source_lines lineno None = Inr (join NL method_lines)
    \<and> (docstring \<noteq> [] \<longrightarrow>
          function_entry source_lines lineno (Some docstring) =
            Inr (join NL (top @ rendered_doc_lines 4 docstring))
        \<and> class_entry source_lines lineno (Some docstring) =
            Inr (join NL (top @ rendered_doc_lines 4 docstring))
        \<and> method_entry source_lines lineno (Some docstring) =
            Inr (join NL (method_lines @ rendered_doc_lines 8 docstring)))"
    using top top0 method_lines method_first indent none docs
    unfolding top_def [symmetric]
    by (intro exI [of _ top] exI [of _ method_lines]) blast
  have open_depth: "curr_indent (hd (rendered_doc_lines depth docstring)) = depth"
    using hd_rendered_doc_lines [of depth docstring] curr_indent_wrapper [of depth]
    by auto
  have lines: "(rest = [] \<longrightarrow>
        rendered_doc_lines depth docstring =
          [replicate depth CHR '' '' @ triple_quote @ docstring @ triple_quote])
      \<and> (rest \<noteq> [] \<longrightarrow>
        rendered_doc_lines depth docstring =
          close_last
            ((replicate depth CHR '' '' @ triple_quote @ first) #
               map (normalized_line (min_indent_of rest) (int depth)) rest)
            triple_quote
      \<and> (\<forall>line \<in> set rest.
           (empty_line line \<longrightarrow>
              normalized_line (min_indent_of rest) (int depth) line = [])
         \<and> (\<not> empty_line line \<longrightarrow>
              normalized_line (min_indent_of rest) (int depth) line =
                replicate depth CHR '' '' @ drop (min_indent_of rest) line
            \<and> min_indent_of rest \<le> curr_indent line
            \<and> curr_indent (normalized_line (min_indent_of rest) (int depth) line @ suffix) =
                depth + (curr_indent line - min_indent_of rest)))
      \<and> ((\<exists>line \<in> set rest. \<not> empty_line line) \<longrightarrow>
           (\<exists>line \<in> set rest. \<not> empty_line line
              \<and> curr_indent (normalized_line (min_indent_of rest) (int depth) line @ suffix) =
                  depth)))"
    if parts: "splitlines docstring = first # rest" for first rest
  proof -
    let ?m = "min_indent_of rest"
    let ?f = "normalized_line ?m (int depth)"
    have single: "rest = [] \<longrightarrow> rendered_doc_lines depth docstring =
        [replicate depth CHR '' '' @ triple_quote @ docstring @ triple_quote]"
      by (simp add: rendered_doc_lines_def parts)
    have multi: "rest \<noteq> [] \<longrightarrow> rendered_doc_lines depth docstring =
        close_last ((replicate depth CHR '' '' @ triple_quote @ first) # map ?f rest)
          triple_quote"
      by (simp add: rendered_doc_lines_def parts)
    have blank: "?f line = []" if "empty_line line" for line
      using that by (simp add: normalized_line_def)
    have filled: "?f line = replicate depth CHR '' '' @ drop ?m line
        \<and> ?m \<le> curr_indent line
        \<and> curr_indent (?f line @ suffix) = depth + (curr_indent line - ?m)"
      if "line \<in> set rest" "\<not> empty_line line" for line
    proof -
      have le: "?m \<le> curr_indent line"
        using that by (rule min_indent_of_le)
      have "curr_indent (?f line @ suffix) = curr_indent (?f line)"
        using curr_indent_normalized_line(2) [OF that(2) le] by (rule curr_indent_suffix)
      also have "\<dots> = nat (int depth) + (curr_indent line - ?m)"
        using that(2) le by (rule curr_indent_normalized_line(1))
      finally show ?thesis
        using that(2) le by (simp add: normalized_line_def spaces_def)
    qed
    have least: "\<exists>line \<in> set rest. \<not> empty_line line \<and> curr_indent (?f line @ suffix) = depth"
      if "\<exists>line \<in> set rest. \<not> empty_line line"
    proof -
      from that obtain l where "l \<in> set rest" "\<not> empty_line l" by blast
      then obtain l0 where l0: "l0 \<in> set rest" "\<not> empty_line l0" "curr_indent l0 = ?m"
        using min_indent_of_attained [of l rest] by blast
      have "curr_indent (?f l0 @ suffix) = depth + (curr_indent l0 - ?m)"
        using filled [OF l0(1,2)] by blast
      then have "curr_indent (?f l0 @ suffix) = depth"
        unfolding l0(3) by simp
      with l0 show ?thesis by blast
    qed
    show ?thesis
      using single multi blank filled least by blast
  qed
  show ?thesis
    using part1 open_depth lines by blast
qed


theorem rendered_indentation_depths_witness:
  "(1::int) \<le> 2
   \<and> (2::int) \<le> int (length [''class A:'', ''  def f(self):'', ''    pass''])
   \<and> ''a\<newline>  b\<newline>\<newline>c'' \<noteq> []
   \<and> splitlines ''a\<newline>  b\<newline>\<newline>c'' = ''a'' # [''  b'', [], ''c'']
   \<and> get_signature_lines [''class A:'', ''  def f(self):'', ''    pass''] 2 4 =
       Inr [''    def f(self):'']
   \<and> rendered_doc_lines 8 ''a\<newline>  b\<newline>\<newline>c'' =
       [''        '' @ triple_quote @ ''a'', ''          b'', [], ''        c'' @ triple_quote]
   \<and> map curr_indent (rendered_doc_lines 8 ''a\<newline>  b\<newline>\<newline>c'') = [8, 10, 0, 8]
   \<and> method_entry [''class A:'', ''  def f(self):'', ''    pass''] 2
         (Some ''a\<newline>  b\<newline>\<newline>c'') =
       Inr (''    def f(self):\<newline>        '' @ triple_quote
            @ ''a\<newline>          b\<newline>\<newline>        c'' @ triple_quote)"
proof -
  let ?sl = "[''class A:'', ''  def f(self):'', ''    pass'']"
  let ?doc = "''a\<newline>  b\<newline>\<newline>c''"
  let ?rendered =
    "[''        '' @ triple_quote @ ''a'', ''          b'', [], ''        c'' @ triple_quote]"
  have h1: "(1::int) \<le> 2" by simp
  have h2: "(2::int) \<le> int (length ?sl)" by simp
  have nonempty: "?doc \<noteq> []" by simp
  have parts: "splitlines ?doc = ''a'' # [''  b'', [], ''c'']" by code_simp
  have lines: "get_signature_lines ?sl 2 4 = Inr [''    def f(self):'']" by code_simp
  have rendered: "rendered_doc_lines 8 ?doc = ?rendered" by code_simp
  have depths: "map curr_indent (rendered_doc_lines 8 ?doc) = [8, 10, 0, 8]" by code_simp
  have joined: "join NL ([''    def f(self):''] @ ?rendered) =
      ''    def f(self):\<newline>        '' @ triple_quote
        @ ''a\<newline>          b\<newline>\<newline>        c'' @ triple_quote"
    by code_simp
  from rendered_indentation_depths [OF h1 h2, of ?doc 8 "[]"] nonempty
  obtain method_lines where method_lines: "get_signature_lines ?sl 2 4 = Inr method_lines"
    and entry: "method_entry ?sl 2 (Some ?doc) =
      Inr (join NL (method_lines @ rendered_doc_lines 8 ?doc))"
    by blast
  from method_lines lines have method_lines_eq: "method_lines = [''    def f(self):'']"
    by (simp only: sum.inject)
  have "method_entry ?sl 2 (Some ?doc) =
      Inr (''    def f(self):\<newline>        '' @ triple_quote
           @ ''a\<newline>          b\<newline>\<newline>        c'' @ triple_quote)"
    using entry by (simp only: method_lines_eq rendered joined)
  with h1 h2 nonempty parts lines rendered depths show ?thesis
    by (intro conjI)
qed

text \<open>
  The claim as stated puts the documentation of a top-level declaration at depth 0 and
  that of a method at depth 8. For a class with the documentation \<^verbatim>\<open>hi\<close> and a method
  whose documentation has an indented second line and an empty third line, the lines of
  the output are at the depths 0, 4, 0, 4, 8, 10, 0, 8: the documentation of the class is
  at 4, and the lines of the documentation of the method are at 8, 10, 0 and 8.
\<close>

theorem docstring_lines_at_other_depths:
  "extract_signatures_and_docstrings
      (\<lambda>p. Inr (''class A:\<newline>    '' @ triple_quote @ ''hi'' @ triple_quote
          @ ''\<newline>    def m(self):\<newline>        '' @ triple_quote
          @ ''a\<newline>          b\<newline>\<newline>        c'' @ triple_quote
          @ ''\<newline>        pass''))
      (\<lambda>s. Inr [ClassDef 1 (Some ''hi'')
          [OtherStmt [],
           FunctionDef 3 (Some ''a\<newline>  b\<newline>\<newline>c'') [OtherStmt [], OtherStmt []]]])
      ''a.py'' =
     ''class A:\<newline>    '' @ triple_quote @ ''hi'' @ triple_quote
       @ ''\<newline>\<newline>    def m(self):\<newline>        '' @ triple_quote
       @ ''a\<newline>          b\<newline>\<newline>        c'' @ triple_quote
   \<and> map curr_indent (splitlines (extract_signatures_and_docstrings
      (\<lambda>p. Inr (''class A:\<newline>    '' @ triple_quote @ ''hi'' @ triple_quote
          @ ''\<newline>    def m(self):\<newline>        '' @ triple_quote
          @ ''a\<newline>          b\<newline>\<newline>        c'' @ triple_quote
          @ ''\<newline>        pass''))
      (\<lambda>s. Inr [ClassDef 1 (Some ''hi'')
          [OtherStmt [],
           FunctionDef 3 (Some ''a\<newline>  b\<newline>\<newline>c'') [OtherStmt [], OtherStmt []]]])
      ''a.py'')) = [0, 4, 0, 4, 8, 10, 0, 8]
   \<and> curr_indent (splitlines (extract_signatures_and_docstrings
      (\<lambda>p. Inr (''class A:\<newline>    '' @ triple_quote @ ''hi'' @ triple_quote
          @ ''\<newline>    def m(self):\<newline>        '' @ triple_quote
          @ ''a\<newline>          b\<newline>\<newline>        c'' @ triple_quote
          @ ''\<newline>        pass''))
      (\<lambda>s. Inr [ClassDef 1 (Some ''hi'')
          [OtherStmt [],
           FunctionDef 3 (Some ''a\<newline>  b\<newline>\<newline>c'') [OtherStmt [], OtherStmt []]]])
      ''a.py'') ! 1) \<noteq> 0
   \<and> curr_indent (splitlines (extract_signatures_and_docstrings
      (\<lambda>p. Inr (''class A:\<newline>    '' @ triple_quote @ ''hi'' @ triple_quote
          @ ''\<newline>    def m(self):\<newline>        '' @ triple_quote
          @ ''a\<newline>          b\<newline>\<newline>        c'' @ triple_quote
          @ ''\<newline>        pass''))
      (\<lambda>s. Inr [ClassDef 1 (Some ''hi'')
          [OtherStmt [],
           FunctionDef 3 (Some ''a\<newline>  b\<newline>\<newline>c'') [OtherStmt [], OtherStmt []]]])
      ''a.py'') ! 5) \<noteq> 8"
  by code_simp

end
